theory Spec2Isabelle
  imports Complex_Main "HOL-Library.Product_Lexorder" "HOL-Library.Multiset" "HOL-Library.Word"
begin

section \<open>Geometry primitives\<close>

text \<open>
  An \<open>mlocation\<close> is a branch id with a proportional position, an \<open>mcable\<close> a branch id
  with a proximal and a distal position. The C++ \<open>double\<close> is modelled as \<open>real\<close>
  (no NaN, no rounding); \<open>msize_t\<close> branch ids are \<open>nat\<close>. The branch field of a cable
  is called \<open>cable_branch\<close> because a record field name is a constant of its own.
\<close>

record mlocation =
  branch :: nat
  pos :: real

record mcable =
  cable_branch :: nat
  prox_pos :: real
  dist_pos :: real

type_synonym mlocation_list = "mlocation list"
type_synonym mcable_list = "mcable list"
type_synonym mextent = "mcable list"

definition prox_loc :: "mcable \<Rightarrow> mlocation" where
  "prox_loc c = \<lparr>branch = cable_branch c, pos = prox_pos c\<rparr>"

definition dist_loc :: "mcable \<Rightarrow> mlocation" where
  "dist_loc c = \<lparr>branch = cable_branch c, pos = dist_pos c\<rparr>"

text \<open>
  Modelled from the spec: \<open>test_invariants(mlocation)\<close> lives in primitives.cpp, which is
  not among the sources. The spec (Location, 3 and 4.1): the position lies within [0,1].
\<close>

definition test_invariants :: "mlocation \<Rightarrow> bool" where
  "test_invariants x \<longleftrightarrow> 0 \<le> pos x \<and> pos x \<le> 1"

text \<open>
  Modelled from the spec: the total order on locations (\<open>operator<\<close> of mlocation, declared
  in primitives.hpp, not among the sources) is by (branch, position). \<open>loc_key\<close> maps a
  location to the pair that is compared lexicographically.
\<close>

definition loc_key :: "mlocation \<Rightarrow> nat \<times> real" where
  "loc_key l = (branch l, pos l)"

definition loc_less :: "mlocation \<Rightarrow> mlocation \<Rightarrow> bool" where
  "loc_less a b \<longleftrightarrow> loc_key a < loc_key b"

section \<open>Errors\<close>

text \<open>
  Every exception of the sources is a value: \<open>invalid_mlocation\<close>, \<open>no_such_branch\<close>,
  \<open>std::logic_error\<close> with its message. \<open>External_error\<close> stands for what a collaborator
  outside the sources throws (an unbound name, say). \<open>Assertion_failed\<close> is a failed
  \<open>arb_assert\<close>; \<open>Out_of_range\<close> is a read past the end of a container, which C++ leaves
  undefined.
\<close>

datatype error =
    Invalid_mlocation mlocation
  | No_such_branch nat
  | Logic_error string
  | External_error string
  | Assertion_failed
  | Out_of_range

section \<open>Collaborators of the locset algebra\<close>

text \<open>
  Modelled from the spec: the morphology (6, External interfaces) is an immutable tree
  description offering \<open>num_branches()\<close>, parent adjacency (\<open>branch_parent\<close>, \<open>None\<close> for
  \<open>mnpos\<close>) and \<open>terminal_branches()\<close>. Its class is not among the sources.
\<close>

record morphology =
  num_branches :: nat
  branch_parent :: "nat \<Rightarrow> nat option"
  terminal_branches :: "nat list"

text \<open>
  Modelled from the spec: the embedding (6) offers \<open>segment_ends()\<close> and
  \<open>integrate_length\<close>, here in its two overloads (between two locations, along a cable).
\<close>

record embedding =
  segment_ends :: "mlocation list"
  integrate_length :: "mlocation \<Rightarrow> mlocation \<Rightarrow> real"
  integrate_length_cable :: "mcable \<Rightarrow> real"

text \<open>
  The provider bundles morphology, embedding and the named locsets. The functions that
  locset.cpp calls and whose code is not among the sources are parameters, carried in the
  same record: region resolution \<open>thingify(region, p)\<close> (region.cpp), the region literal
  \<open>region{extent}\<close> and \<open>reg::complete\<close>, \<open>components\<close>, the list operations
  \<open>intersection\<close>, \<open>join\<close> and \<open>sum\<close> (primitives.cpp), and the counter-based generator
  behind \<open>util::uniform\<close> (cbrng.hpp). \<open>have_assertions\<close> is the build option that turns
  \<open>arb_assert\<close> into a check. \<open>not_a_number\<close> is the stand-in for a position that is a
  NaN: the type \<open>real\<close> has no such value, and nothing is assumed about the stand-in.
  The region type is a type parameter.
\<close>

record 'r mprovider =
  morphology :: morphology
  embedding :: embedding
  locset_named :: "string \<Rightarrow> error + mlocation list"
  thingify_region :: "'r \<Rightarrow> error + mcable list"
  extent_region :: "mcable list \<Rightarrow> 'r"
  complete_region :: "mcable list \<Rightarrow> 'r"
  components :: "mcable list \<Rightarrow> mcable list list"
  intersection_ll :: "mlocation list \<Rightarrow> mlocation list \<Rightarrow> mlocation list"
  join_ll :: "mlocation list \<Rightarrow> mlocation list \<Rightarrow> mlocation list"
  sum_ll :: "mlocation list \<Rightarrow> mlocation list \<Rightarrow> mlocation list"
  cbrng :: "64 word \<Rightarrow> nat \<Rightarrow> real"
  have_assertions :: bool
  not_a_number :: real

section \<open>Locset expressions and their constructors\<close>

datatype 'r locset =
    Ls_nil
  | Ls_location mlocation
  | Ls_location_list "mlocation list"
  | Ls_terminal
  | Ls_root
  | Ls_segments
  | Ls_on_branches real
  | Ls_named string
  | Ls_most_distal 'r
  | Ls_most_proximal 'r
  | Ls_boundary 'r
  | Ls_cboundary 'r
  | Ls_on_components real 'r
  | Ls_uniform 'r nat nat "64 word"
  | Ls_land "'r locset" "'r locset"
  | Ls_lor "'r locset" "'r locset"
  | Ls_lsum "'r locset" "'r locset"
  | Ls_lsup "'r locset"
  | Ls_lrestrict "'r locset" 'r

text \<open>\<open>assert_valid\<close>: throw on an invalid mlocation.\<close>

definition assert_valid :: "mlocation \<Rightarrow> error + unit" where
  "assert_valid x = (if \<not> test_invariants x then Inl (Invalid_mlocation x) else Inr ())"

text \<open>
  The constructor functions of namespace \<open>ls\<close>. Each returns the expression or the
  exception it throws; only \<open>location\<close> has a throwing path.
\<close>

definition location :: "nat \<Rightarrow> real \<Rightarrow> error + 'r locset" where
  "location b x =
     (let loc = \<lparr>branch = b, pos = x\<rparr>
      in case assert_valid loc of Inl e \<Rightarrow> Inl e | Inr _ \<Rightarrow> Inr (Ls_location loc))"

definition location_list :: "mlocation list \<Rightarrow> error + 'r locset" where
  "location_list ll = Inr (Ls_location_list ll)"

definition on_branches :: "real \<Rightarrow> error + 'r locset" where
  "on_branches x = Inr (Ls_on_branches x)"

definition most_distal :: "'r \<Rightarrow> 'r locset" where
  "most_distal reg = Ls_most_distal reg"

definition most_proximal :: "'r \<Rightarrow> 'r locset" where
  "most_proximal reg = Ls_most_proximal reg"

definition boundary :: "'r \<Rightarrow> 'r locset" where
  "boundary reg = Ls_boundary reg"

definition on_components :: "real \<Rightarrow> 'r \<Rightarrow> 'r locset" where
  "on_components relpos reg = Ls_on_components relpos reg"

definition uniform :: "'r \<Rightarrow> nat \<Rightarrow> nat \<Rightarrow> 64 word \<Rightarrow> 'r locset" where
  "uniform reg left right seed = Ls_uniform reg left right seed"

definition restrict :: "'r locset \<Rightarrow> 'r \<Rightarrow> 'r locset" where
  "restrict ls reg = Ls_lrestrict ls reg"

section \<open>Helpers of the resolution that are outside the sources\<close>

text \<open>
  Modelled from the spec: the morphology's tree partial order (primitives.cpp and
  morphology.cpp are not among the sources). \<open>branch_chain m k b\<close> lists the proper
  ancestors of branch \<open>b\<close>, following \<open>branch_parent\<close> at most \<open>k\<close> times.
  A location is an ancestor of another when it lies strictly before it on the same
  branch, or on a proper ancestor branch.
\<close>

fun branch_chain :: "morphology \<Rightarrow> nat \<Rightarrow> nat \<Rightarrow> nat list" where
  "branch_chain m 0 b = []"
| "branch_chain m (Suc k) b =
     (case branch_parent m b of None \<Rightarrow> [] | Some q \<Rightarrow> q # branch_chain m k q)"

definition branch_ancestor :: "morphology \<Rightarrow> nat \<Rightarrow> nat \<Rightarrow> bool" where
  "branch_ancestor m a b \<longleftrightarrow> a \<in> set (branch_chain m (num_branches m) b)"

definition loc_ancestor :: "morphology \<Rightarrow> mlocation \<Rightarrow> mlocation \<Rightarrow> bool" where
  "loc_ancestor m x y \<longleftrightarrow>
     (branch x = branch y \<and> pos x < pos y) \<or> branch_ancestor m (branch x) (branch y)"

text \<open>
  Modelled from the spec: \<open>maxset\<close> and \<open>minset\<close> (primitives.cpp, not among the sources).
  The spec (4.3): reduce to the maximal (resp. minimal) set under the morphology's tree
  partial order, i.e. discard any point that is an ancestor (resp. descendant) of another
  point in the candidate set.
\<close>

definition maxset :: "morphology \<Rightarrow> mlocation list \<Rightarrow> mlocation list" where
  "maxset m L = filter (\<lambda>x. \<not> list_ex (\<lambda>y. loc_ancestor m x y) L) L"

definition minset :: "morphology \<Rightarrow> mlocation list \<Rightarrow> mlocation list" where
  "minset m L = filter (\<lambda>x. \<not> list_ex (\<lambda>y. loc_ancestor m y x) L) L"

text \<open>
  Modelled from the spec: \<open>support\<close> on point lists (primitives.cpp, not among the
  sources). The spec (4.3): canonicalize, sort and deduplicate a point list.
\<close>

definition support :: "mlocation list \<Rightarrow> mlocation list" where
  "support L = remdups_adj (sort_key loc_key L)"

text \<open>
  Modelled from the spec: \<open>util::uniform(seed, left, right)\<close> (util/cbrng.hpp, not among
  the sources). The spec (4.3, 9): one sample per draw index in [left, right], each a
  function of (seed, draw index) alone.
\<close>

definition util_uniform :: "(64 word \<Rightarrow> nat \<Rightarrow> real) \<Rightarrow> 64 word \<Rightarrow> nat \<Rightarrow> nat \<Rightarrow> real list" where
  "util_uniform g seed left right = map (g seed) [left ..< Suc right]"

text \<open>
  Modelled from the spec: the small utilities of util/ and math.hpp that locset.cpp
  calls and that are not among the sources. \<open>util::max_value\<close> is the largest value of a
  sequence (the maximal distance of 4.3), with the default value 0 on an empty one;
  \<open>math::lerp\<close> is the linear interpolation of 4.3, as the sum of two fused
  multiply-adds; \<open>util::make_partition\<close> gives the cumulative lengths of 4.3: it fills
  the bounds with the running sums of the sizes, starting at 0, part \<open>i\<close> of the
  partition being the pair of bounds \<open>i\<close> and \<open>i+1\<close>. Reading a part that does not exist
  is a read out of range.
\<close>

definition max_value :: "real list \<Rightarrow> real" where
  "max_value xs = (case xs of [] \<Rightarrow> 0 | x # ys \<Rightarrow> fold (\<lambda>y m. if m < y then y else m) ys x)"

definition lerp :: "real \<Rightarrow> real \<Rightarrow> real \<Rightarrow> real" where
  "lerp a b u = u * b + (- u * a + a)"

fun running_sums :: "real \<Rightarrow> real list \<Rightarrow> real list" where
  "running_sums acc [] = []"
| "running_sums acc (x # xs) = (acc + x) # running_sums (acc + x) xs"

definition make_partition :: "real list \<Rightarrow> real list" where
  "make_partition sizes = 0 # running_sums 0 sizes"

definition part_at :: "real list \<Rightarrow> nat \<Rightarrow> error + real \<times> real" where
  "part_at bounds i =
     (if Suc i < length bounds then Inr (bounds ! i, bounds ! Suc i) else Inl Out_of_range)"

text \<open>
  \<open>std::lower_bound\<close> as the standard library implements it: a binary search for the
  first position whose element is not less than the value.
\<close>

function lower_bound_loop :: "mlocation list \<Rightarrow> mlocation \<Rightarrow> nat \<Rightarrow> nat \<Rightarrow> nat" where
  "lower_bound_loop ends l first cnt =
     (if 0 < cnt then
        (let step = cnt div 2; it = first + step
         in if loc_less (ends ! it) l
            then lower_bound_loop ends l (Suc it) (cnt - (step + 1))
            else lower_bound_loop ends l first step)
      else first)"
  by pat_completeness auto
termination
  by (relation "measure (\<lambda>(ends, l, first, cnt). cnt)") auto

declare lower_bound_loop.simps [simp del]

definition lower_bound :: "mlocation list \<Rightarrow> mlocation \<Rightarrow> nat" where
  "lower_bound ends l = lower_bound_loop ends l 0 (length ends)"

section \<open>Resolution: \<open>thingify\<close>\<close>

definition thingify_location :: "mlocation \<Rightarrow> 'r mprovider \<Rightarrow> error + mlocation list" where
  "thingify_location loc p =
     (case assert_valid loc of
        Inl e \<Rightarrow> Inl e
      | Inr _ \<Rightarrow>
          if num_branches (morphology p) \<le> branch loc then Inl (No_such_branch (branch loc))
          else Inr [loc])"

fun check_branches :: "nat \<Rightarrow> mlocation list \<Rightarrow> error + unit" where
  "check_branches n [] = Inr ()"
| "check_branches n (loc # ll) =
     (if n \<le> branch loc then Inl (No_such_branch (branch loc)) else check_branches n ll)"

definition thingify_location_list :: "mlocation list \<Rightarrow> 'r mprovider \<Rightarrow> error + mlocation list" where
  "thingify_location_list ll p =
     (case check_branches (num_branches (morphology p)) ll of
        Inl e \<Rightarrow> Inl e
      | Inr _ \<Rightarrow> Inr ll)"

definition thingify_terminal :: "'r mprovider \<Rightarrow> error + mlocation list" where
  "thingify_terminal p =
     Inr (map (\<lambda>bid. \<lparr>branch = bid, pos = 1\<rparr>) (terminal_branches (morphology p)))"

definition thingify_root :: "'r mprovider \<Rightarrow> error + mlocation list" where
  "thingify_root p = Inr [\<lparr>branch = 0, pos = 0\<rparr>]"

definition thingify_segments :: "'r mprovider \<Rightarrow> error + mlocation list" where
  "thingify_segments p = Inr (segment_ends (embedding p))"

text \<open>The loop of \<open>on_branches\<close>: \<open>for (b = 0; b < n_branch; ++b) locs.push_back({b, pos})\<close>.\<close>

function on_branches_loop :: "real \<Rightarrow> nat \<Rightarrow> nat \<Rightarrow> mlocation list \<Rightarrow> mlocation list" where
  "on_branches_loop x n b locs =
     (if b < n then on_branches_loop x n (Suc b) (locs @ [\<lparr>branch = b, pos = x\<rparr>]) else locs)"
  by pat_completeness auto
termination
  by (relation "measure (\<lambda>(x, n, b, locs). n - b)") auto

declare on_branches_loop.simps [simp del]

definition thingify_on_branches :: "real \<Rightarrow> 'r mprovider \<Rightarrow> error + mlocation list" where
  "thingify_on_branches x p = Inr (on_branches_loop x (num_branches (morphology p)) 0 [])"

definition thingify_named :: "string \<Rightarrow> 'r mprovider \<Rightarrow> error + mlocation list" where
  "thingify_named name p = locset_named p name"

definition thingify_most_distal :: "'r \<Rightarrow> 'r mprovider \<Rightarrow> error + mlocation list" where
  "thingify_most_distal reg p =
     (case thingify_region p reg of
        Inl e \<Rightarrow> Inl e
      | Inr cables \<Rightarrow>
          Inr (maxset (morphology p)
                 (map (\<lambda>c. \<lparr>branch = cable_branch c, pos = dist_pos c\<rparr>) cables)))"

definition thingify_most_proximal :: "'r \<Rightarrow> 'r mprovider \<Rightarrow> error + mlocation list" where
  "thingify_most_proximal reg p =
     (case thingify_region p reg of
        Inl e \<Rightarrow> Inl e
      | Inr cables \<Rightarrow>
          Inr (minset (morphology p)
                 (map (\<lambda>c. \<lparr>branch = cable_branch c, pos = prox_pos c\<rparr>) cables)))"

text \<open>
  The two assertions at the head of the component loops of \<open>boundary\<close> and
  \<open>on_components\<close>. Without assertions an empty component makes \<open>comp.front()\<close> a read
  out of range. The second assertion resolves \<open>most_proximal_{region{comp}}\<close>, and is
  not evaluated at all when assertions are off.
\<close>

definition component_front :: "'r mprovider \<Rightarrow> mcable list \<Rightarrow> error + mcable" where
  "component_front p cpt =
     (case cpt of
        [] \<Rightarrow> Inl (if have_assertions p then Assertion_failed else Out_of_range)
      | c # _ \<Rightarrow> Inr c)"

definition single_proximal :: "'r mprovider \<Rightarrow> mcable list \<Rightarrow> error + unit" where
  "single_proximal p cpt =
     (if have_assertions p then
        (case thingify_most_proximal (extent_region p cpt) p of
           Inl e \<Rightarrow> Inl e
         | Inr l \<Rightarrow> if length l = 1 then Inr () else Inl Assertion_failed)
      else Inr ())"

fun boundary_loop :: "'r mprovider \<Rightarrow> mcable list list \<Rightarrow> mlocation list \<Rightarrow> error + mlocation list" where
  "boundary_loop p [] L = Inr L"
| "boundary_loop p (cpt # cpts) L =
     (case component_front p cpt of
        Inl e \<Rightarrow> Inl e
      | Inr c0 \<Rightarrow>
          (case single_proximal p cpt of
             Inl e \<Rightarrow> Inl e
           | Inr _ \<Rightarrow>
               (let distal_set = map dist_loc cpt;
                    L1 = sum_ll p L [prox_loc c0];
                    L2 = sum_ll p L1 (maxset (morphology p) distal_set)
                in boundary_loop p cpts L2)))"

definition thingify_boundary :: "'r \<Rightarrow> 'r mprovider \<Rightarrow> error + mlocation list" where
  "thingify_boundary reg p =
     (case thingify_region p reg of
        Inl e \<Rightarrow> Inl e
      | Inr cables \<Rightarrow>
          (case boundary_loop p (components p cables) [] of
             Inl e \<Rightarrow> Inl e
           | Inr L \<Rightarrow> Inr (support L)))"

fun cboundary_loop :: "'r mprovider \<Rightarrow> mcable list list \<Rightarrow> mlocation list \<Rightarrow> error + mlocation list" where
  "cboundary_loop p [] L = Inr L"
| "cboundary_loop p (cpt # cpts) L =
     (case thingify_region p (complete_region p cpt) of
        Inl e \<Rightarrow> Inl e
      | Inr ccpt \<Rightarrow>
          (let proximal_set = map prox_loc ccpt;
               distal_set = map dist_loc ccpt;
               L1 = sum_ll p L (minset (morphology p) proximal_set);
               L2 = sum_ll p L1 (maxset (morphology p) distal_set)
           in cboundary_loop p cpts L2))"

definition thingify_cboundary :: "'r \<Rightarrow> 'r mprovider \<Rightarrow> error + mlocation list" where
  "thingify_cboundary reg p =
     (case thingify_region p reg of
        Inl e \<Rightarrow> Inl e
      | Inr cables \<Rightarrow>
          (case cboundary_loop p (components p cables) [] of
             Inl e \<Rightarrow> Inl e
           | Inr L \<Rightarrow> Inr (support L)))"

text \<open>
  \<open>on_components\<close>, the case \<open>relpos == 1\<close>: the scan that keeps the distal ends at the
  largest distance from the proximal point of the component, ties included.
\<close>

fun most_distal_scan :: "(mlocation \<Rightarrow> real) \<Rightarrow> mcable list \<Rightarrow> real \<Rightarrow> mlocation list \<Rightarrow> mlocation list" where
  "most_distal_scan d_from_prox [] diameter md = md"
| "most_distal_scan d_from_prox (c # cs) diameter md =
     (let x = dist_loc c; d = d_from_prox x
      in if diameter < d then most_distal_scan d_from_prox cs d [x]
         else if d = diameter then most_distal_scan d_from_prox cs diameter (md @ [x])
         else most_distal_scan d_from_prox cs diameter md)"

text \<open>
  \<open>on_components\<close>, the case \<open>0 < relpos < 1\<close>: the loop over the cables of the
  component. \<open>std::fma(s, a, b)\<close> is \<open>s * a + b\<close>.
\<close>

fun interpolate_scan :: "(mlocation \<Rightarrow> real) \<Rightarrow> real \<Rightarrow> mcable list \<Rightarrow> mlocation list" where
  "interpolate_scan d_from_prox d [] = []"
| "interpolate_scan d_from_prox d (c # cs) =
     (let d0 = d_from_prox (prox_loc c); d1 = d_from_prox (dist_loc c)
      in if d0 \<le> d \<and> d \<le> d1 then
           (let s = (if d0 = d1 then 0 else (d - d0) / (d1 - d0));
                s' = min 1 (s * (dist_pos c - prox_pos c) + prox_pos c)
            in \<lparr>branch = cable_branch c, pos = s'\<rparr> # interpolate_scan d_from_prox d cs)
         else interpolate_scan d_from_prox d cs)"

definition on_component :: "'r mprovider \<Rightarrow> real \<Rightarrow> mcable list \<Rightarrow> error + mlocation list" where
  "on_component p relpos cpt =
     (case component_front p cpt of
        Inl e \<Rightarrow> Inl e
      | Inr c0 \<Rightarrow>
          (case single_proximal p cpt of
             Inl e \<Rightarrow> Inl e
           | Inr _ \<Rightarrow>
               (let prox = prox_loc c0;
                    d_from_prox = integrate_length (embedding p) prox
                in if relpos = 0 then Inr [prox]
                   else if relpos = 1 then Inr (most_distal_scan d_from_prox cpt 0 [prox])
                   else
                     (let diameter = max_value (map (\<lambda>c. d_from_prox (dist_loc c)) cpt);
                          d = relpos * diameter
                      in Inr (interpolate_scan d_from_prox d cpt)))))"

fun on_components_loop :: "'r mprovider \<Rightarrow> real \<Rightarrow> mcable list list \<Rightarrow> mlocation list \<Rightarrow> error + mlocation list" where
  "on_components_loop p relpos [] L = Inr L"
| "on_components_loop p relpos (cpt # cpts) L =
     (case on_component p relpos cpt of
        Inl e \<Rightarrow> Inl e
      | Inr xs \<Rightarrow> on_components_loop p relpos cpts (L @ xs))"

definition thingify_on_components :: "real \<Rightarrow> 'r \<Rightarrow> 'r mprovider \<Rightarrow> error + mlocation list" where
  "thingify_on_components relpos reg p =
     (if relpos < 0 \<or> 1 < relpos then Inr []
      else
        (case thingify_region p reg of
           Inl e \<Rightarrow> Inl e
         | Inr cables \<Rightarrow>
             (case on_components_loop p relpos (components p cables) [] of
                Inl e \<Rightarrow> Inl e
              | Inr L \<Rightarrow> Inr (sort_key loc_key L))))"

text \<open>
  \<open>uniform\<close>: the inner loop \<open>while (e > range.second) range = lengths_part[++cable_idx]\<close>
  and the loop over the sorted sample positions.

  On a cable of zero length the quotient \<open>(e - range.first)/(range.second - range.first)\<close>
  has the divisor 0 and a dividend that is 0 or negative: the double is a NaN or an
  infinity, and so is the position that \<open>math::lerp\<close> makes of it. The code raises
  nothing there and pushes the location. In the model \<open>pos_on_cable\<close> is \<open>None\<close> in that
  case, and the location pushed has the stand-in \<open>nan\<close> for its position.
\<close>

function advance_cable :: "real list \<Rightarrow> nat \<Rightarrow> real \<times> real \<Rightarrow> real \<Rightarrow> error + nat \<times> (real \<times> real)" where
  "advance_cable bounds cable_idx rng e =
     (if snd rng < e then
        (case part_at bounds (Suc cable_idx) of
           Inl err \<Rightarrow> Inl err
         | Inr rng' \<Rightarrow> advance_cable bounds (Suc cable_idx) rng' e)
      else Inr (cable_idx, rng))"
  by pat_completeness auto
termination
  by (relation "measure (\<lambda>(bounds, cable_idx, rng, e). length bounds - cable_idx)")
     (auto simp: part_at_def split: if_splits)

declare advance_cable.simps [simp del]

fun uniform_walk :: "real \<Rightarrow> real list \<Rightarrow> mcable list \<Rightarrow> nat \<Rightarrow> real \<times> real \<Rightarrow> real list \<Rightarrow> mlocation list \<Rightarrow> error + mlocation list" where
  "uniform_walk nan bounds reg_cables cable_idx rng [] L = Inr L"
| "uniform_walk nan bounds reg_cables cable_idx rng (e # es) L =
     (case advance_cable bounds cable_idx rng e of
        Inl err \<Rightarrow> Inl err
      | Inr (cable_idx', rng') \<Rightarrow>
          if length reg_cables \<le> cable_idx' then Inl Out_of_range
          else
            (let cable = reg_cables ! cable_idx';
                 pos_on_cable =
                   (if snd rng' - fst rng' = 0 then None
                    else Some ((e - fst rng') / (snd rng' - fst rng')));
                 pos_on_branch =
                   (case pos_on_cable of
                      None \<Rightarrow> nan
                    | Some u \<Rightarrow> lerp (prox_pos cable) (dist_pos cable) u)
             in uniform_walk nan bounds reg_cables cable_idx' rng' es
                  (L @ [\<lparr>branch = cable_branch cable, pos = pos_on_branch\<rparr>])))"

definition thingify_uniform :: "'r \<Rightarrow> nat \<Rightarrow> nat \<Rightarrow> 64 word \<Rightarrow> 'r mprovider \<Rightarrow> error + mlocation list" where
  "thingify_uniform reg left right seed p =
     (case thingify_region p reg of
        Inl e \<Rightarrow> Inl e
      | Inr reg_cables \<Rightarrow>
          (let bounds = make_partition (map (integrate_length_cable (embedding p)) reg_cables);
               region_length = last bounds;
               random_pos = sort (map (\<lambda>c. c * region_length) (util_uniform (cbrng p) seed left right))
           in case part_at bounds 0 of
                Inl e \<Rightarrow> Inl e
              | Inr rng \<Rightarrow> uniform_walk (not_a_number p) bounds reg_cables 0 rng random_pos []))"

text \<open>\<open>restrict\<close>: the loop over the locations, with the lower bound on the distal ends.\<close>

fun restrict_loop :: "mcable list \<Rightarrow> mlocation list \<Rightarrow> mlocation list \<Rightarrow> mlocation list" where
  "restrict_loop cables [] L = L"
| "restrict_loop cables (l # ls) L =
     (let ends = map (\<lambda>c. \<lparr>branch = cable_branch c, pos = dist_pos c\<rparr>) cables;
          it = lower_bound ends l
      in if it = length ends then restrict_loop cables ls L
         else
           (let c = cables ! it
            in if cable_branch c = branch l \<and> prox_pos c \<le> pos l
               then restrict_loop cables ls (L @ [l])
               else restrict_loop cables ls L))"

text \<open>
  The dispatch of \<open>thingify\<close> over the expression. Where C++ leaves the order of the two
  operand resolutions of a binary node open, the left operand is resolved first.
\<close>

fun thingify :: "'r locset \<Rightarrow> 'r mprovider \<Rightarrow> error + mlocation list" where
  "thingify Ls_nil p = Inr []"
| "thingify (Ls_location loc) p = thingify_location loc p"
| "thingify (Ls_location_list ll) p = thingify_location_list ll p"
| "thingify Ls_terminal p = thingify_terminal p"
| "thingify Ls_root p = thingify_root p"
| "thingify Ls_segments p = thingify_segments p"
| "thingify (Ls_on_branches x) p = thingify_on_branches x p"
| "thingify (Ls_named name) p = thingify_named name p"
| "thingify (Ls_most_distal reg) p = thingify_most_distal reg p"
| "thingify (Ls_most_proximal reg) p = thingify_most_proximal reg p"
| "thingify (Ls_boundary reg) p = thingify_boundary reg p"
| "thingify (Ls_cboundary reg) p = thingify_cboundary reg p"
| "thingify (Ls_on_components relpos reg) p = thingify_on_components relpos reg p"
| "thingify (Ls_uniform reg left right seed) p = thingify_uniform reg left right seed p"
| "thingify (Ls_land lhs rhs) p =
     (case thingify lhs p of
        Inl e \<Rightarrow> Inl e
      | Inr a \<Rightarrow> (case thingify rhs p of Inl e \<Rightarrow> Inl e | Inr b \<Rightarrow> Inr (intersection_ll p a b)))"
| "thingify (Ls_lor lhs rhs) p =
     (case thingify lhs p of
        Inl e \<Rightarrow> Inl e
      | Inr a \<Rightarrow> (case thingify rhs p of Inl e \<Rightarrow> Inl e | Inr b \<Rightarrow> Inr (join_ll p a b)))"
| "thingify (Ls_lsum lhs rhs) p =
     (case thingify lhs p of
        Inl e \<Rightarrow> Inl e
      | Inr a \<Rightarrow> (case thingify rhs p of Inl e \<Rightarrow> Inl e | Inr b \<Rightarrow> Inr (sum_ll p a b)))"
| "thingify (Ls_lsup arg) p =
     (case thingify arg p of Inl e \<Rightarrow> Inl e | Inr a \<Rightarrow> Inr (support a))"
| "thingify (Ls_lrestrict ls reg) p =
     (case thingify_region p reg of
        Inl e \<Rightarrow> Inl e
      | Inr cables \<Rightarrow>
          (case thingify ls p of
             Inl e \<Rightarrow> Inl e
           | Inr locs \<Rightarrow> Inr (restrict_loop cables locs [])))"

text \<open>
  What the spec says \<open>restrict\<close> keeps: the lower bound of a location among the distal
  ends is the first position whose end is not less than the location; the location is
  kept when that position exists and its cable shares the branch and starts at or before
  the location.
\<close>

definition first_not_less :: "mlocation list \<Rightarrow> mlocation \<Rightarrow> nat" where
  "first_not_less ends l = length (takeWhile (\<lambda>e. loc_less e l) ends)"

definition restrict_keeps :: "mcable list \<Rightarrow> mlocation \<Rightarrow> bool" where
  "restrict_keeps cables l \<longleftrightarrow>
     (let i = first_not_less (map dist_loc cables) l
      in i < length cables \<and> cable_branch (cables ! i) = branch l \<and> prox_pos (cables ! i) \<le> pos l)"

text \<open>
  What the loop of \<open>restrict\<close> tests for one location, with the binary search of the
  code in place of the lower bound of the spec.
\<close>

definition keeps_by_search :: "mcable list \<Rightarrow> mlocation \<Rightarrow> bool" where
  "keeps_by_search cables l \<longleftrightarrow>
     (let i = lower_bound (map dist_loc cables) l
      in i \<noteq> length cables \<and> cable_branch (cables ! i) = branch l \<and> prox_pos (cables ! i) \<le> pos l)"

section \<open>Mechanism instantiation and parameter updates (backends/gpu/mechanism.cpp)\<close>

text \<open>
  The mechanism owns a data block \<open>data_\<close>; the generated class holds one pointer member
  per field, which \<open>instantiate\<close> points into the block. A pointer is modelled as an
  offset into \<open>data\<close>, \<open>None\<close> while it is not set. \<open>field_table\<close> pairs each key with
  the number (slot) of its pointer member. The value type is a type parameter, with the NaN
  that fills the block passed in. Of \<open>instantiate\<close> the model keeps the width, the two
  ion lookups that can throw, and the data block with its field pointers and defaults;
  the views onto the shared state and the index block do not bear on the parameters.
\<close>

record 'v layout =
  cv :: "nat list"
  weight :: "'v list"

record shared_state =
  ion_data :: "(string \<times> nat list) list"

record 'v mechanism =
  mechanism_id :: nat
  width :: nat
  n_ion :: nat
  field_table :: "(string \<times> nat) list"
  field_default_table :: "(string \<times> 'v) list"
  ion_state_table :: "string list"
  ion_index_table :: "string list"
  field_ptr :: "nat \<Rightarrow> nat option"
  data :: "'v list"

text \<open>
  Modelled from the spec: \<open>util::value_by_key\<close> (util/maputil.hpp) and \<open>math::round_up\<close>
  (math.hpp) are not among the sources. The first looks a key up in a table of pairs
  (the declared table of 4.5), the second gives the padded width of 4.5: the width
  rounded up to the next multiple of the alignment.
\<close>

definition value_by_key :: "('k \<times> 'a) list \<Rightarrow> 'k \<Rightarrow> 'a option" where
  "value_by_key tbl key = map_of tbl key"

definition round_up :: "nat \<Rightarrow> nat \<Rightarrow> nat" where
  "round_up v b = (let m = v mod b in v - m + (if m \<noteq> 0 then b else 0))"

text \<open>\<open>memory::copy\<close> and \<open>memory::fill\<close> onto the view of a block that starts at an offset.\<close>

definition copy_into :: "'v list \<Rightarrow> nat \<Rightarrow> 'v list \<Rightarrow> 'v list" where
  "copy_into src off dst = take off dst @ src @ drop (off + length src) dst"

definition fill_into :: "'v \<Rightarrow> nat \<Rightarrow> nat \<Rightarrow> 'v list \<Rightarrow> 'v list" where
  "fill_into v off n dst = take off dst @ replicate n v @ drop (off + n) dst"

definition read_view :: "'v list \<Rightarrow> nat \<Rightarrow> nat \<Rightarrow> 'v list" where
  "read_view blk off n = take n (drop off blk)"

fun check_ions :: "shared_state \<Rightarrow> string list \<Rightarrow> error + unit" where
  "check_ions shared [] = Inr ()"
| "check_ions shared (k # ks) =
     (case value_by_key (ion_data shared) k of
        None \<Rightarrow> Inl (Logic_error ''mechanism holds ion with no corresponding shared state'')
      | Some _ \<Rightarrow> check_ions shared ks)"

text \<open>The loop over the fields: point slot \<open>i\<close> behind block \<open>i+1\<close>, fill in the default.\<close>

fun init_fields :: "nat \<Rightarrow> nat \<Rightarrow> (string \<times> nat) list \<Rightarrow> 'v mechanism \<Rightarrow> 'v mechanism" where
  "init_fields width_padded i [] m = m"
| "init_fields width_padded i ((key, slot) # flds) m =
     (let off = (i + 1) * width_padded;
          m1 = m\<lparr>field_ptr := (field_ptr m)(slot \<mapsto> off)\<rparr>;
          m2 = (case value_by_key (field_default_table m) key of
                  Some v \<Rightarrow> m1\<lparr>data := fill_into v off (width m) (data m1)\<rparr>
                | None \<Rightarrow> m1)
      in init_fields width_padded (i + 1) flds m2)"

definition instantiate :: "nat \<Rightarrow> 'v \<Rightarrow> nat \<Rightarrow> shared_state \<Rightarrow> 'v layout \<Rightarrow> 'v mechanism \<Rightarrow> error + 'v mechanism" where
  "instantiate alignment nan ident shared pos_data m =
     (let m1 = m\<lparr>mechanism_id := ident, width := length (cv pos_data)\<rparr>;
          width_padded = round_up (width m1) alignment;
          m2 = m1\<lparr>n_ion := length (ion_state_table m1)\<rparr>
      in case check_ions shared (ion_state_table m2) of
           Inl e \<Rightarrow> Inl e
         | Inr _ \<Rightarrow>
             if width m2 = 0 then Inr m2
             else
               (let n_field = length (field_table m2);
                    blk = replicate ((1 + n_field) * width_padded) nan;
                    m3 = m2\<lparr>data := copy_into (weight pos_data) 0 blk\<rparr>;
                    m4 = init_fields width_padded 0 (field_table m3) m3
                in if n_ion m4 \<noteq> length (ion_index_table m4) then Inl Assertion_failed
                   else
                     (case check_ions shared (ion_index_table m4) of
                        Inl e \<Rightarrow> Inl e
                      | Inr _ \<Rightarrow> Inr m4)))"

definition set_parameter :: "string \<Rightarrow> 'v list \<Rightarrow> 'v mechanism \<Rightarrow> error + 'v mechanism" where
  "set_parameter key values m =
     (case value_by_key (field_table m) key of
        Some slot \<Rightarrow>
          if length values \<noteq> width m
          then Inl (Logic_error ''internal error: mechanism parameter size mismatch'')
          else if 0 < width m then
            (case field_ptr m slot of
               None \<Rightarrow> Inl Out_of_range
             | Some off \<Rightarrow>
                 if length (data m) < off + width m then Inl Out_of_range
                 else Inr (m\<lparr>data := copy_into values off (data m)\<rparr>))
          else Inr m
      | None \<Rightarrow> Inl (Logic_error ''internal error: no such mechanism parameter''))"

section \<open>Integration domains over gap junctions\<close>

text \<open>
  The recipe as the unit tests of \<open>fvm_intdom\<close> use it: \<open>gap_junctions_on(gid)\<close> lists the
  connections of a cell, each naming its peer (gid and site index), the local site and a
  conductance.
\<close>

record gap_junction_connection =
  peer :: "nat \<times> nat"
  local_site :: nat
  ggap :: real

record recipe =
  num_cells :: nat
  gap_junctions_on :: "nat \<Rightarrow> gap_junction_connection list"

text \<open>
  Modelled from the spec: \<open>fvm_intdom\<close> is a member of the lowered cell
  (fvm_lowered_cell_impl.hpp), which is not among the sources; only its unit tests are.
  The spec (4.4): cells connected (transitively) by a gap junction share one integration
  domain id; a union-find / connected-components problem over the gap-junction graph
  restricted to the gids being processed, deterministic with respect to the gid ordering.

  The model is a union-find by relabelling: every gid of the list starts as its own
  label; each gap junction between two listed gids gives the second cell's class the
  label of the first; a junction whose peer is not listed is outside the restricted
  graph and changes nothing. The domain id of a cell is the rank of its label in order of
  first appearance along the gid list, which is the numbering the unit tests expect.
\<close>

definition uf_union :: "(nat \<times> nat) list \<Rightarrow> nat \<times> nat \<Rightarrow> (nat \<times> nat) list" where
  "uf_union tbl e =
     (case (map_of tbl (fst e), map_of tbl (snd e)) of
        (Some la, Some lb) \<Rightarrow> map (\<lambda>(g, l). (g, if l = lb then la else l)) tbl
      | _ \<Rightarrow> tbl)"

definition gj_edges :: "recipe \<Rightarrow> nat list \<Rightarrow> (nat \<times> nat) list" where
  "gj_edges rec gids =
     concat (map (\<lambda>g. map (\<lambda>c. (g, fst (peer c))) (gap_junctions_on rec g)) gids)"

definition gj_labels :: "recipe \<Rightarrow> nat list \<Rightarrow> (nat \<times> nat) list" where
  "gj_labels rec gids = foldl uf_union (map (\<lambda>g. (g, g)) gids) (gj_edges rec gids)"

fun index_of :: "'a \<Rightarrow> 'a list \<Rightarrow> nat" where
  "index_of x [] = 0"
| "index_of x (y # ys) = (if x = y then 0 else Suc (index_of x ys))"

definition first_occurrences :: "'a list \<Rightarrow> 'a list" where
  "first_occurrences xs = rev (remdups (rev xs))"

definition fvm_intdom :: "recipe \<Rightarrow> nat list \<Rightarrow> nat \<times> nat list" where
  "fvm_intdom rec gids =
     (let reps = map snd (gj_labels rec gids);
          doms = first_occurrences reps
      in (length doms, map (\<lambda>r. index_of r doms) reps))"

text \<open>
  The gap-junction graph restricted to the listed gids, and its connectivity: the
  reflexive, transitive closure of the junctions taken in both directions.
\<close>

definition gj_graph :: "recipe \<Rightarrow> nat list \<Rightarrow> (nat \<times> nat) set" where
  "gj_graph rec gids =
     {(a, b). a \<in> set gids \<and> b \<in> set gids \<and> (\<exists>c \<in> set (gap_junctions_on rec a). fst (peer c) = b)}"

definition gj_connected :: "recipe \<Rightarrow> nat list \<Rightarrow> (nat \<times> nat) set" where
  "gj_connected rec gids = (gj_graph rec gids \<union> (gj_graph rec gids)\<inverse>)\<^sup>*"

text \<open>The recipes of the unit test \<open>integration_domains\<close> (test_fvm_lowered.cpp).\<close>

definition gjc :: "nat \<Rightarrow> gap_junction_connection" where
  "gjc g = \<lparr>peer = (g, 0), local_site = 0, ggap = 0.1\<rparr>"

definition gap_recipe_0 :: recipe where
  "gap_recipe_0 = \<lparr>num_cells = 12, gap_junctions_on = (\<lambda>gid.
     if gid = 0 then [gjc 5]
     else if gid = 2 then [gjc 3]
     else if gid = 3 then [gjc 7, gjc 2]
     else if gid = 5 then [gjc 0]
     else if gid = 7 then [gjc 3]
     else [])\<rparr>"

definition gap_recipe_1 :: recipe where
  "gap_recipe_1 = \<lparr>num_cells = 12, gap_junctions_on = (\<lambda>gid. [])\<rparr>"

definition gap_recipe_2 :: recipe where
  "gap_recipe_2 = \<lparr>num_cells = 12, gap_junctions_on = (\<lambda>gid.
     if gid = 0 then [gjc 2, gjc 3, gjc 5]
     else if gid = 2 then [gjc 0, gjc 3, gjc 5]
     else if gid = 3 then [gjc 0, gjc 2, gjc 5]
     else if gid = 5 then [gjc 2, gjc 3, gjc 0]
     else [])\<rparr>"

section \<open>A concrete morphology for the examples\<close>

text \<open>
  Two branches: branch 0 of length 60 and its child, branch 1, of length 40. A region is
  a literal list of cables; resolving it fails on a cable of a branch that does not
  exist. The whole region is taken as one component.
\<close>

definition two_branch_morphology :: morphology where
  "two_branch_morphology =
     \<lparr>num_branches = 2,
      branch_parent = (\<lambda>b. if b = 1 then Some 0 else None),
      terminal_branches = [1]\<rparr>"

definition path_length :: "mlocation \<Rightarrow> real" where
  "path_length l = (if branch l = 0 then 60 * pos l else 60 + 40 * pos l)"

definition two_branch_embedding :: embedding where
  "two_branch_embedding =
     \<lparr>segment_ends = [\<lparr>branch = 0, pos = 0\<rparr>, \<lparr>branch = 0, pos = 1\<rparr>,
                      \<lparr>branch = 1, pos = 0\<rparr>, \<lparr>branch = 1, pos = 1\<rparr>],
      integrate_length = (\<lambda>a b. path_length b - path_length a),
      integrate_length_cable = (\<lambda>c. path_length (dist_loc c) - path_length (prox_loc c))\<rparr>"

definition two_branch_provider :: "mcable list mprovider" where
  "two_branch_provider =
     \<lparr>morphology = two_branch_morphology,
      embedding = two_branch_embedding,
      locset_named = (\<lambda>name. Inl (External_error name)),
      thingify_region = (\<lambda>r. case filter (\<lambda>c. 2 \<le> cable_branch c) r of
                                 [] \<Rightarrow> Inr r
                               | c # _ \<Rightarrow> Inl (No_such_branch (cable_branch c))),
      extent_region = (\<lambda>e. e),
      complete_region = (\<lambda>e. e),
      components = (\<lambda>e. if e = [] then [] else [e]),
      intersection_ll = (\<lambda>a b. filter (\<lambda>x. x \<in> set b) a),
      join_ll = (\<lambda>a b. remdups_adj (sort_key loc_key (a @ b))),
      sum_ll = (\<lambda>a b. sort_key loc_key (a @ b)),
      cbrng = (\<lambda>seed i. 1 / (real i + 1)),
      have_assertions = True,
      not_a_number = - 1\<rparr>"

definition whole_cell :: "mcable list" where
  "whole_cell = [\<lparr>cable_branch = 0, prox_pos = 0, dist_pos = 1\<rparr>,
                 \<lparr>cable_branch = 1, prox_pos = 0, dist_pos = 1\<rparr>]"

definition point_region :: "mcable list" where
  "point_region = [\<lparr>cable_branch = 0, prox_pos = 1/2, dist_pos = 1/2\<rparr>]"

definition no_such_region :: "mcable list" where
  "no_such_region = [\<lparr>cable_branch = 7, prox_pos = 0, dist_pos = 1\<rparr>]"

section \<open>Field views of a mechanism, and a mechanism for the examples\<close>

text \<open>
  The view of a field of an instantiated mechanism: the \<open>width_\<close> values behind its
  pointer (nothing while the pointer is not set). \<open>fields_in_block\<close> says that the
  pointers of a set of slots are set and that their views lie within the data block.
\<close>

definition field_view :: "'v mechanism \<Rightarrow> nat \<Rightarrow> 'v list" where
  "field_view m slot =
     (case field_ptr m slot of None \<Rightarrow> [] | Some off \<Rightarrow> read_view (data m) off (width m))"

definition fields_in_block :: "'v mechanism \<Rightarrow> nat set \<Rightarrow> bool" where
  "fields_in_block m S \<longleftrightarrow>
     (\<forall>slot \<in> S. \<exists>off. field_ptr m slot = Some off \<and> off + width m \<le> length (data m))"

text \<open>
  A mechanism with two fields and one ion, for the examples; the value type is
  \<open>real option\<close>, with \<open>None\<close> for NaN. \<open>hh_instance\<close> is what \<open>instantiate\<close> makes of
  it on two control volumes with an alignment of 4.
\<close>

definition hh_mechanism :: "real option mechanism" where
  "hh_mechanism =
     \<lparr>mechanism_id = 0, width = 0, n_ion = 0,
      field_table = [(''gbar'', 0), (''el'', 1)],
      field_default_table = [(''gbar'', Some 1)],
      ion_state_table = [''na''],
      ion_index_table = [''na''],
      field_ptr = (\<lambda>slot. None),
      data = []\<rparr>"

definition hh_shared :: shared_state where
  "hh_shared = \<lparr>ion_data = [(''na'', [3, 5, 8])]\<rparr>"

definition hh_layout :: "real option layout" where
  "hh_layout = \<lparr>cv = [3, 5], weight = [Some 1, Some 1]\<rparr>"

definition hh_instance :: "real option mechanism" where
  "hh_instance =
     \<lparr>mechanism_id = 7, width = 2, n_ion = 1,
      field_table = [(''gbar'', 0), (''el'', 1)],
      field_default_table = [(''gbar'', Some 1)],
      ion_state_table = [''na''],
      ion_index_table = [''na''],
      field_ptr = ((\<lambda>slot. None)(0 \<mapsto> 4))(1 \<mapsto> 8),
      data = [Some 1, Some 1, None, None, Some 1, Some 1, None, None, None, None, None, None]\<rparr>"

section \<open>What the spec says of \<open>on_components\<close> strictly inside a component\<close>

text \<open>
  The spec (4.3) in its own words, for \<open>0 < relpos < 1\<close>: lengths are measured from the
  proximal end of the component (the proximal end of its first cable); the target
  distance is \<open>relpos\<close> times the largest distance of a distal end; a cable straddles the
  target when the target lies between the distances of its two ends; the point on a
  straddling cable is placed by linear interpolation in length, its position clamped to
  at most 1.
\<close>

definition length_from_prox :: "'r mprovider \<Rightarrow> mcable list \<Rightarrow> mlocation \<Rightarrow> real" where
  "length_from_prox p cpt x = integrate_length (embedding p) (prox_loc (hd cpt)) x"

definition component_length :: "'r mprovider \<Rightarrow> mcable list \<Rightarrow> real" where
  "component_length p cpt = Max ((\<lambda>c. length_from_prox p cpt (dist_loc c)) ` set cpt)"

definition straddles :: "'r mprovider \<Rightarrow> mcable list \<Rightarrow> real \<Rightarrow> mcable \<Rightarrow> bool" where
  "straddles p cpt d c \<longleftrightarrow>
     length_from_prox p cpt (prox_loc c) \<le> d \<and> d \<le> length_from_prox p cpt (dist_loc c)"

definition interpolate :: "'r mprovider \<Rightarrow> mcable list \<Rightarrow> real \<Rightarrow> mcable \<Rightarrow> mlocation" where
  "interpolate p cpt d c =
     (let d0 = length_from_prox p cpt (prox_loc c);
          d1 = length_from_prox p cpt (dist_loc c);
          s = (if d0 = d1 then 0 else (d - d0) / (d1 - d0))
      in \<lparr>branch = cable_branch c, pos = min 1 (prox_pos c + s * (dist_pos c - prox_pos c))\<rparr>)"

definition points_on_component :: "'r mprovider \<Rightarrow> real \<Rightarrow> mcable list \<Rightarrow> mlocation list" where
  "points_on_component p relpos cpt =
     (let d = relpos * component_length p cpt
      in map (interpolate p cpt d) (filter (straddles p cpt d) cpt))"

section \<open>Connectivity along an edge list\<close>

text \<open>
  For the proof that the relabelling computes the components: the junctions of an edge
  list that stay within the listed gids, the connectivity they generate, and the
  invariant of the relabelling (two positions carry the same label exactly when their
  gids are connected by the edges processed so far).
\<close>

definition restricted_edges :: "nat list \<Rightarrow> (nat \<times> nat) list \<Rightarrow> (nat \<times> nat) set" where
  "restricted_edges gids es = {(a, b). (a, b) \<in> set es \<and> a \<in> set gids \<and> b \<in> set gids}"

definition connected_by :: "nat list \<Rightarrow> (nat \<times> nat) list \<Rightarrow> (nat \<times> nat) set" where
  "connected_by gids es = (restricted_edges gids es \<union> (restricted_edges gids es)\<inverse>)\<^sup>*"

definition labels_agree :: "nat list \<Rightarrow> (nat \<times> nat) list \<Rightarrow> (nat \<times> nat) list \<Rightarrow> bool" where
  "labels_agree gids tbl es \<longleftrightarrow>
     map fst tbl = gids \<and>
     (\<forall>i < length gids. \<forall>j < length gids.
        snd (tbl ! i) = snd (tbl ! j) \<longleftrightarrow> (gids ! i, gids ! j) \<in> connected_by gids es)"

text \<open>The recipe of the unit test \<open>cell_group_gj\<close>: two rings over the even gids.\<close>

definition ring_recipe :: recipe where
  "ring_recipe = \<lparr>num_cells = 20, gap_junctions_on = (\<lambda>gid.
     if gid mod 2 = 0 then
       [\<lparr>peer = (if gid = 8 then 0 else if gid = 18 then 10 else gid + 2, 0),
         local_site = 0, ggap = 0.03\<rparr>,
        \<lparr>peer = (if gid = 0 then 8 else if gid = 10 then 18 else gid - 2, 0),
         local_site = 0, ggap = 0.03\<rparr>]
     else [])\<rparr>"

section \<open>The walk of \<open>uniform\<close>, sample by sample\<close>

text \<open>
  For the proofs about \<open>uniform\<close>: the location that the walk pushes for a sample on
  the cable it has reached (\<open>place_on_cable\<close>); what the walk does for one sample on
  its own, started at the first cable (\<open>locate_sample\<close>); the accumulation of such results over a list,
  stopping at the first error (\<open>collect\<close>); and the invariant of an extent that the
  order of the walk relies on: every cable runs from its proximal to its distal
  position, and the cables are listed in the order of the locations, one ending before
  the next begins.
\<close>

definition place_on_cable :: "real \<Rightarrow> mcable \<Rightarrow> real \<times> real \<Rightarrow> real \<Rightarrow> mlocation" where
  "place_on_cable nan cable rng e =
     (let pos_on_cable =
            (if snd rng - fst rng = 0 then None else Some ((e - fst rng) / (snd rng - fst rng)));
          pos_on_branch =
            (case pos_on_cable of
               None \<Rightarrow> nan
             | Some u \<Rightarrow> lerp (prox_pos cable) (dist_pos cable) u)
      in \<lparr>branch = cable_branch cable, pos = pos_on_branch\<rparr>)"

definition locate_sample :: "real \<Rightarrow> real list \<Rightarrow> mcable list \<Rightarrow> real \<Rightarrow> error + mlocation" where
  "locate_sample nan bounds reg_cables e =
     (case part_at bounds 0 of
        Inl err \<Rightarrow> Inl err
      | Inr rng0 \<Rightarrow>
          (case advance_cable bounds 0 rng0 e of
             Inl err \<Rightarrow> Inl err
           | Inr (k, rng) \<Rightarrow>
               if length reg_cables \<le> k then Inl Out_of_range
               else Inr (place_on_cable nan (reg_cables ! k) rng e)))"

fun collect :: "('a \<Rightarrow> error + 'b) \<Rightarrow> 'a list \<Rightarrow> 'b list \<Rightarrow> error + 'b list" where
  "collect f [] L = Inr L"
| "collect f (e # es) L = (case f e of Inl err \<Rightarrow> Inl err | Inr l \<Rightarrow> collect f es (L @ [l]))"

definition is_extent :: "mcable list \<Rightarrow> bool" where
  "is_extent cables \<longleftrightarrow>
     list_all (\<lambda>c. prox_pos c \<le> dist_pos c) cables \<and>
     sorted_wrt (\<lambda>c c'. loc_key (dist_loc c) \<le> loc_key (prox_loc c')) cables"

section \<open>Properties of the literals and of \<open>on_branches\<close>\<close>

lemma on_branches_loop_eq:
  "on_branches_loop x n b locs = locs @ map (\<lambda>b. \<lparr>branch = b, pos = x\<rparr>) [b ..< n]"
proof (induction x n b locs rule: on_branches_loop.induct)
  case (1 x n b locs)
  show ?case
  proof (cases "b < n")
    case True
    then show ?thesis
      using "1.IH" by (subst on_branches_loop.simps) (simp add: upt_conv_Cons)
  next
    case False
    then show ?thesis by (subst on_branches_loop.simps) simp
  qed
qed

text \<open>
  C10. \<open>on_branches\<close> validates nothing: for every real \<open>x\<close>, in or out of [0,1], the
  constructor returns the expression, and resolving it succeeds with one location per
  branch, in branch order, each at position exactly \<open>x\<close>.
\<close>

theorem on_branches_unchecked:
  "(on_branches x :: error + 'r locset) = Inr (Ls_on_branches x) \<and>
   thingify (Ls_on_branches x) p =
     Inr (map (\<lambda>b. \<lparr>branch = b, pos = x\<rparr>) [0 ..< num_branches (morphology p)])"
  by (simp add: on_branches_def thingify_on_branches_def on_branches_loop_eq)

text \<open>
  C7, as the code has it. The literal \<open>location(branch, pos)\<close> with a position outside
  [0,1] raises \<open>invalid_mlocation\<close> at construction. The literal \<open>location_list(ll)\<close>
  checks no position: it is constructed for every list, and its resolution checks the
  branch ids only, so a list whose branches exist resolves to itself whatever its
  positions are.
\<close>

theorem literal_position_validation:
  "(\<not> (0 \<le> x \<and> x \<le> 1) \<longrightarrow>
      (location b x :: error + 'r locset) = Inl (Invalid_mlocation \<lparr>branch = b, pos = x\<rparr>)) \<and>
   (location_list ll :: error + 'r locset) = Inr (Ls_location_list ll) \<and>
   ((\<forall>l \<in> set ll. branch l < num_branches (morphology p)) \<longrightarrow>
      thingify (Ls_location_list ll) (p :: 'r mprovider) = Inr ll)"
proof -
  have "check_branches n ll = Inr ()" if "\<forall>l \<in> set ll. branch l < n" for n
    using that by (induction ll) auto
  then show ?thesis
    by (auto simp: location_def location_list_def assert_valid_def test_invariants_def
        thingify_location_list_def)
qed

theorem literal_position_validation_witness:
  "\<not> (0 \<le> (2::real) \<and> (2::real) \<le> 1) \<and>
   (location 1 2 :: error + mcable list locset) = Inl (Invalid_mlocation \<lparr>branch = 1, pos = 2\<rparr>) \<and>
   branch \<lparr>branch = 1, pos = 5\<rparr> < num_branches (morphology two_branch_provider) \<and>
   thingify (Ls_location_list [\<lparr>branch = 1, pos = 5\<rparr>]) two_branch_provider
     = Inr [\<lparr>branch = 1, pos = 5\<rparr>]"
  using literal_position_validation [of 2 1 "[\<lparr>branch = 1, pos = 5\<rparr>]" two_branch_provider]
  by (simp add: two_branch_provider_def two_branch_morphology_def)

text \<open>
  C7 as stated fails for the list literal: a list holding the location (0, 2), whose
  position is outside [0,1], is constructed without an error and resolves to itself.
\<close>

theorem location_list_unvalidated_counterexample:
  "\<not> test_invariants \<lparr>branch = 0, pos = 2\<rparr> \<and>
   (location_list [\<lparr>branch = 0, pos = 2\<rparr>] :: error + mcable list locset)
     = Inr (Ls_location_list [\<lparr>branch = 0, pos = 2\<rparr>]) \<and>
   thingify (Ls_location_list [\<lparr>branch = 0, pos = 2\<rparr>]) two_branch_provider
     = Inr [\<lparr>branch = 0, pos = 2\<rparr>]"
  by (simp add: test_invariants_def location_list_def thingify_location_list_def
      two_branch_provider_def two_branch_morphology_def)

section \<open>Properties of the region queries\<close>

lemma maxset_incomparable:
  "x \<in> set (maxset m L) \<Longrightarrow> y \<in> set (maxset m L) \<Longrightarrow> \<not> loc_ancestor m x y"
  by (auto simp: maxset_def list_ex_iff)

lemma minset_incomparable:
  "x \<in> set (minset m L) \<Longrightarrow> y \<in> set (minset m L) \<Longrightarrow> \<not> loc_ancestor m x y"
  by (auto simp: minset_def list_ex_iff)

text \<open>
  C1. Whenever resolving \<open>most_distal(R)\<close> or \<open>most_proximal(R)\<close> returns a list, its
  points are pairwise incomparable in the tree order of the morphology: no point of the
  most-distal list is an ancestor of another, no point of the most-proximal list a
  descendant of another.
\<close>

theorem most_distal_proximal_incomparable:
  "(thingify (most_distal reg) p = Inr D \<longrightarrow>
      (\<forall>x \<in> set D. \<forall>y \<in> set D. \<not> loc_ancestor (morphology p) x y)) \<and>
   (thingify (most_proximal reg) p = Inr P \<longrightarrow>
      (\<forall>x \<in> set P. \<forall>y \<in> set P. \<not> loc_ancestor (morphology p) y x))"
  by (auto simp: most_distal_def most_proximal_def thingify_most_distal_def
      thingify_most_proximal_def split: sum.splits
      dest: maxset_incomparable minset_incomparable)

theorem most_distal_proximal_incomparable_witness:
  "thingify (most_distal whole_cell) two_branch_provider = Inr [\<lparr>branch = 1, pos = 1\<rparr>] \<and>
   thingify (most_proximal whole_cell) two_branch_provider = Inr [\<lparr>branch = 0, pos = 0\<rparr>] \<and>
   loc_ancestor (morphology two_branch_provider) \<lparr>branch = 0, pos = 1\<rparr> \<lparr>branch = 1, pos = 1\<rparr> \<and>
   loc_ancestor (morphology two_branch_provider) \<lparr>branch = 0, pos = 0\<rparr> \<lparr>branch = 1, pos = 0\<rparr> \<and>
   \<not> loc_ancestor (morphology two_branch_provider) \<lparr>branch = 1, pos = 1\<rparr> \<lparr>branch = 1, pos = 1\<rparr> \<and>
   \<not> loc_ancestor (morphology two_branch_provider) \<lparr>branch = 0, pos = 0\<rparr> \<lparr>branch = 0, pos = 0\<rparr>"
proof -
  have d: "thingify (most_distal whole_cell) two_branch_provider = Inr [\<lparr>branch = 1, pos = 1\<rparr>]"
    by code_simp
  have q: "thingify (most_proximal whole_cell) two_branch_provider = Inr [\<lparr>branch = 0, pos = 0\<rparr>]"
    by code_simp
  have a: "loc_ancestor (morphology two_branch_provider) \<lparr>branch = 0, pos = 1\<rparr> \<lparr>branch = 1, pos = 1\<rparr>"
    by code_simp
  have b: "loc_ancestor (morphology two_branch_provider) \<lparr>branch = 0, pos = 0\<rparr> \<lparr>branch = 1, pos = 0\<rparr>"
    by code_simp
  from most_distal_proximal_incomparable
         [of whole_cell two_branch_provider "[\<lparr>branch = 1, pos = 1\<rparr>]" "[\<lparr>branch = 0, pos = 0\<rparr>]"]
       d q a b
  show ?thesis by simp
qed

lemma inj_loc_key: "inj loc_key"
  by (rule injI) (simp add: loc_key_def)

lemma sorted_support: "sorted (map loc_key (support L))"
proof -
  have "map loc_key (remdups_adj (sort_key loc_key L)) = remdups_adj (map loc_key (sort_key loc_key L))"
    by (simp add: remdups_adj_map_injective inj_loc_key)
  then show ?thesis
    by (simp add: support_def sorted_remdups_adj)
qed

lemma distinct_remdups_adj_sorted:
  fixes xs :: "('a :: linorder) list"
  shows "sorted xs \<Longrightarrow> distinct (remdups_adj xs)"
  by (induction xs rule: remdups_adj.induct) auto

lemma distinct_support: "distinct (support L)"
proof -
  have "distinct (remdups_adj (map loc_key (sort_key loc_key L)))"
    by (rule distinct_remdups_adj_sorted) simp
  then have "distinct (map loc_key (support L))"
    by (simp add: support_def remdups_adj_map_injective inj_loc_key)
  then show ?thesis
    by (simp add: distinct_map)
qed

lemma support_fixed: "sorted (map loc_key L) \<Longrightarrow> distinct L \<Longrightarrow> support L = L"
  by (simp add: support_def sort_key_id_if_sorted remdups_adj_distinct)

text \<open>
  C3. Whenever resolving \<open>boundary(R)\<close> returns a list, the list is sorted in the total
  order on locations, holds no point twice, and equals its own support.
\<close>

theorem boundary_support_closed:
  "thingify (boundary reg) p = Inr L \<Longrightarrow>
     sorted (map loc_key L) \<and> distinct L \<and> support L = L"
proof -
  assume "thingify (boundary reg) p = Inr L"
  then obtain L' where "L = support L'"
    by (auto simp: boundary_def thingify_boundary_def split: sum.splits)
  then show ?thesis
    by (simp add: sorted_support distinct_support support_fixed)
qed

theorem boundary_support_closed_witness:
  "thingify (boundary whole_cell) two_branch_provider
     = Inr [\<lparr>branch = 0, pos = 0\<rparr>, \<lparr>branch = 1, pos = 1\<rparr>] \<and>
   sorted (map loc_key [\<lparr>branch = 0, pos = 0\<rparr>, \<lparr>branch = 1, pos = 1\<rparr>]) \<and>
   distinct [\<lparr>branch = 0, pos = 0\<rparr>, \<lparr>branch = 1, pos = (1::real)\<rparr>] \<and>
   support [\<lparr>branch = 0, pos = 0\<rparr>, \<lparr>branch = 1, pos = 1\<rparr>]
     = [\<lparr>branch = 0, pos = 0\<rparr>, \<lparr>branch = 1, pos = 1\<rparr>]"
proof -
  have r: "thingify (boundary whole_cell) two_branch_provider
     = Inr [\<lparr>branch = 0, pos = 0\<rparr>, \<lparr>branch = 1, pos = 1\<rparr>]"
    by code_simp
  from boundary_support_closed [OF r] r show ?thesis by simp
qed

text \<open>
  C5. For a relative position below 0 or above 1, resolving \<open>on_components\<close> returns the
  empty list and no error, whatever the region and the provider are, even for a region
  whose own resolution throws.
\<close>

theorem on_components_outside_unit_interval:
  "relpos < 0 \<or> 1 < relpos \<Longrightarrow> thingify (on_components relpos reg) p = Inr []"
  by (auto simp: on_components_def thingify_on_components_def)

theorem on_components_outside_unit_interval_witness:
  "((2::real) < 0 \<or> 1 < (2::real)) \<and>
   thingify_region two_branch_provider no_such_region = Inl (No_such_branch 7) \<and>
   thingify (on_components 2 no_such_region) two_branch_provider = Inr []"
  using on_components_outside_unit_interval [of 2 no_such_region two_branch_provider]
  by (simp add: two_branch_provider_def no_such_region_def)

section \<open>\<open>restrict\<close>\<close>

lemma dist_loc_lambda: "(\<lambda>c. \<lparr>branch = cable_branch c, pos = dist_pos c\<rparr>) = dist_loc"
  by (rule ext) (simp add: dist_loc_def)

lemma restrict_loop_filter:
  "restrict_loop cables locs L = L @ filter (keeps_by_search cables) locs"
proof (induction locs arbitrary: L)
  case Nil
  then show ?case by simp
next
  case (Cons l locs)
  then show ?case
    by (simp add: keeps_by_search_def Let_def dist_loc_lambda)
qed

text \<open>On sorted ends the binary search returns the first position that is not less.\<close>

lemma lower_bound_loop_sorted:
  assumes "sorted (map loc_key ends)"
    and "first + cnt \<le> length ends"
    and "\<forall>i < first. loc_less (ends ! i) l"
    and "\<forall>i. first + cnt \<le> i \<and> i < length ends \<longrightarrow> \<not> loc_less (ends ! i) l"
  shows "lower_bound_loop ends l first cnt = first_not_less ends l"
  using assms
proof (induction ends l first cnt rule: lower_bound_loop.induct)
  case (1 ends l first cnt)
  have mono: "loc_key (ends ! i) \<le> loc_key (ends ! j)" if "i \<le> j" "j < length ends" for i j
    using "1.prems"(1) that by (simp add: sorted_iff_nth_mono)
  show ?case
  proof (cases "0 < cnt")
    case False
    then have c0: "cnt = 0" by simp
    have "takeWhile (\<lambda>e. loc_less e l) ends = take first ends"
      using "1.prems"(3,4) c0 by (intro takeWhile_eq_take_P_nth) auto
    then have "first_not_less ends l = first"
      using "1.prems"(2) by (simp add: first_not_less_def)
    with c0 show ?thesis
      by (subst lower_bound_loop.simps) simp
  next
    case True
    define step where "step = cnt div 2"
    define it where "it = first + step"
    have it_lt: "it < length ends" and step_lt: "step < cnt"
      using True "1.prems"(2) by (auto simp: it_def step_def)
    show ?thesis
    proof (cases "loc_less (ends ! it) l")
      case less: True
      have below: "\<forall>i < Suc it. loc_less (ends ! i) l"
      proof (intro allI impI)
        fix i assume "i < Suc it"
        then have "loc_key (ends ! i) \<le> loc_key (ends ! it)"
          using mono [of i it] it_lt by simp
        with less show "loc_less (ends ! i) l"
          by (auto simp: loc_less_def)
      qed
      have sum_eq: "Suc it + (cnt - (step + 1)) = first + cnt"
        using step_lt by (simp add: it_def)
      have "lower_bound_loop ends l (Suc it) (cnt - (step + 1)) = first_not_less ends l"
        using "1.IH"(1) [OF True step_def it_def less "1.prems"(1) _ below]
          "1.prems"(2,4) sum_eq by simp
      then show ?thesis
        using True less by (subst lower_bound_loop.simps) (simp add: Let_def step_def it_def)
    next
      case nless: False
      have above: "\<forall>i. first + step \<le> i \<and> i < length ends \<longrightarrow> \<not> loc_less (ends ! i) l"
      proof (intro allI impI)
        fix i assume "first + step \<le> i \<and> i < length ends"
        then have "loc_key (ends ! it) \<le> loc_key (ends ! i)"
          using mono [of it i] by (simp add: it_def)
        with nless show "\<not> loc_less (ends ! i) l"
          by (auto simp: loc_less_def)
      qed
      have "lower_bound_loop ends l first step = first_not_less ends l"
        using "1.IH"(2) [OF True step_def it_def nless "1.prems"(1) _ "1.prems"(3) above]
          "1.prems"(2) step_lt by simp
      then show ?thesis
        using True nless by (subst lower_bound_loop.simps) (simp add: Let_def step_def it_def)
    qed
  qed
qed

lemma lower_bound_sorted:
  "sorted (map loc_key ends) \<Longrightarrow> lower_bound ends l = first_not_less ends l"
  unfolding lower_bound_def by (rule lower_bound_loop_sorted) auto

lemma keeps_by_search_sorted:
  "sorted (map loc_key (map dist_loc cables)) \<Longrightarrow> keeps_by_search cables l = restrict_keeps cables l"
proof -
  assume s: "sorted (map loc_key (map dist_loc cables))"
  have "first_not_less (map dist_loc cables) l \<le> length cables"
    unfolding first_not_less_def using length_takeWhile_le [of _ "map dist_loc cables"] by simp
  then show ?thesis
    using lower_bound_sorted [OF s, of l]
    by (auto simp: keeps_by_search_def restrict_keeps_def Let_def)
qed

text \<open>
  C6. \<open>restrict\<close> is idempotent: restricting a restricted locset to the same region
  resolves to what the first restriction resolves to, errors included. And when the
  region resolves to cables whose distal ends are sorted, \<open>restrict\<close> keeps exactly the
  locations for which the cable at the lower bound among the distal ends shares the
  branch and has its proximal position at or before the location.
\<close>

theorem restrict_idempotent:
  "thingify (restrict (restrict ls reg) reg) p = thingify (restrict ls reg) p \<and>
   (thingify_region p reg = Inr cables \<and> sorted (map loc_key (map dist_loc cables)) \<and>
    thingify ls p = Inr locs \<longrightarrow>
      thingify (restrict ls reg) p = Inr (filter (restrict_keeps cables) locs))"
proof -
  have "filter (keeps_by_search cables) locs = filter (restrict_keeps cables) locs"
    if "sorted (map loc_key (map dist_loc cables))"
    by (rule filter_cong) (simp_all add: keeps_by_search_sorted [OF that])
  then show ?thesis
    by (auto simp: restrict_def restrict_loop_filter split: sum.splits)
qed

theorem restrict_idempotent_witness:
  "thingify_region two_branch_provider whole_cell = Inr whole_cell \<and>
   sorted (map loc_key (map dist_loc whole_cell)) \<and>
   thingify (Ls_location_list [\<lparr>branch = 0, pos = 7/10\<rparr>, \<lparr>branch = 1, pos = 2\<rparr>]) two_branch_provider
     = Inr [\<lparr>branch = 0, pos = 7/10\<rparr>, \<lparr>branch = 1, pos = 2\<rparr>] \<and>
   thingify (restrict (Ls_location_list [\<lparr>branch = 0, pos = 7/10\<rparr>, \<lparr>branch = 1, pos = 2\<rparr>]) whole_cell)
      two_branch_provider = Inr [\<lparr>branch = 0, pos = 7/10\<rparr>] \<and>
   thingify (restrict (restrict (Ls_location_list [\<lparr>branch = 0, pos = 7/10\<rparr>, \<lparr>branch = 1, pos = 2\<rparr>])
      whole_cell) whole_cell) two_branch_provider = Inr [\<lparr>branch = 0, pos = 7/10\<rparr>]"
proof -
  have a: "thingify_region two_branch_provider whole_cell = Inr whole_cell"
    by (simp add: two_branch_provider_def whole_cell_def)
  have b: "sorted (map loc_key (map dist_loc whole_cell))"
    by (simp add: whole_cell_def dist_loc_def loc_key_def)
  have c: "thingify (Ls_location_list [\<lparr>branch = 0, pos = 7/10\<rparr>, \<lparr>branch = 1, pos = 2\<rparr>]) two_branch_provider
     = Inr [\<lparr>branch = 0, pos = 7/10\<rparr>, \<lparr>branch = 1, pos = 2\<rparr>]"
    by (simp add: thingify_location_list_def two_branch_provider_def two_branch_morphology_def)
  have d: "filter (restrict_keeps whole_cell) [\<lparr>branch = 0, pos = 7/10\<rparr>, \<lparr>branch = 1, pos = 2\<rparr>]
     = [\<lparr>branch = 0, pos = 7/10\<rparr>]"
    by (simp add: restrict_keeps_def first_not_less_def whole_cell_def dist_loc_def loc_less_def loc_key_def)
  from restrict_idempotent [of "Ls_location_list [\<lparr>branch = 0, pos = 7/10\<rparr>, \<lparr>branch = 1, pos = 2\<rparr>]"
      whole_cell two_branch_provider whole_cell "[\<lparr>branch = 0, pos = 7/10\<rparr>, \<lparr>branch = 1, pos = 2\<rparr>]"]
    a b c d
  show ?thesis by simp
qed

section \<open>Parameter updates of a mechanism\<close>

lemma round_up_ge: "0 < b \<Longrightarrow> v \<le> round_up v b"
proof -
  assume "0 < b"
  then have "v mod b < b" by simp
  then show ?thesis
    by (auto simp: round_up_def Let_def)
qed

lemma length_fill_into: "off + n \<le> length dst \<Longrightarrow> length (fill_into v off n dst) = length dst"
  by (simp add: fill_into_def)

lemma length_copy_into_ge: "length dst \<le> length (copy_into src off dst)"
  by (simp add: copy_into_def)

lemma length_copy_into: "off + length src \<le> length dst \<Longrightarrow> length (copy_into src off dst) = length dst"
  by (simp add: copy_into_def)

lemma read_copy_into:
  "off + length src \<le> length dst \<Longrightarrow> read_view (copy_into src off dst) off (length src) = src"
  by (simp add: copy_into_def read_view_def)

lemma init_fields_keeps:
  assumes "width m \<le> wp" and "(1 + n) * wp \<le> length (data m)" and "i + length flds \<le> n"
    and "fields_in_block m S"
  shows "width (init_fields wp i flds m) = width m \<and>
         field_table (init_fields wp i flds m) = field_table m \<and>
         length (data (init_fields wp i flds m)) = length (data m) \<and>
         fields_in_block (init_fields wp i flds m) (S \<union> snd ` set flds)"
  using assms
proof (induction flds arbitrary: m i S)
  case Nil
  then show ?case by simp
next
  case (Cons kv flds)
  obtain key slot where kv: "kv = (key, slot)" by (cases kv)
  define off where "off = (i + 1) * wp"
  define m1 where "m1 = m\<lparr>field_ptr := (field_ptr m)(slot \<mapsto> off)\<rparr>"
  define m2 where "m2 = (case value_by_key (field_default_table m) key of
                  Some v \<Rightarrow> m1\<lparr>data := fill_into v off (width m) (data m1)\<rparr>
                | None \<Rightarrow> m1)"
  have "(i + 2) * wp \<le> (1 + n) * wp"
    using Cons.prems(3) by (intro mult_le_mono1) simp
  then have room: "off + width m \<le> length (data m)"
    using Cons.prems(1,2) by (simp add: off_def)
  have w2: "width m2 = width m" and t2: "field_table m2 = field_table m"
    and p2: "field_ptr m2 = (field_ptr m)(slot \<mapsto> off)"
    by (simp_all add: m2_def m1_def split: option.splits)
  have l2: "length (data m2) = length (data m)"
    using room by (simp add: m2_def m1_def length_fill_into split: option.splits)
  have "fields_in_block m2 (insert slot S)"
    using Cons.prems(4) room by (auto simp: fields_in_block_def w2 l2 p2)
  moreover have "width m2 \<le> wp" "(1 + n) * wp \<le> length (data m2)" "(i + 1) + length flds \<le> n"
    using Cons.prems(1,2,3) by (simp_all add: w2 l2)
  ultimately have
    "width (init_fields wp (i + 1) flds m2) = width m2 \<and>
     field_table (init_fields wp (i + 1) flds m2) = field_table m2 \<and>
     length (data (init_fields wp (i + 1) flds m2)) = length (data m2) \<and>
     fields_in_block (init_fields wp (i + 1) flds m2) (insert slot S \<union> snd ` set flds)"
    by (intro Cons.IH)
  moreover have "init_fields wp i (kv # flds) m = init_fields wp (i + 1) flds m2"
    by (simp add: kv m2_def m1_def off_def Let_def split: option.splits)
  ultimately show ?case
    by (simp add: kv w2 t2 l2)
qed

lemma instantiate_fields_in_block:
  assumes "instantiate alignment nan ident shared pos_data m0 = Inr m" and "0 < alignment"
    and "0 < width m"
  shows "fields_in_block m (snd ` set (field_table m))"
proof -
  define m2 where "m2 = m0\<lparr>mechanism_id := ident, width := length (cv pos_data),
                           n_ion := length (ion_state_table m0)\<rparr>"
  define wp where "wp = round_up (width m2) alignment"
  define n where "n = length (field_table m2)"
  define m3 where "m3 = m2\<lparr>data := copy_into (weight pos_data) 0 (replicate ((1 + n) * wp) nan)\<rparr>"
  define m4 where "m4 = init_fields wp 0 (field_table m3) m3"
  have eq: "m = (if width m2 = 0 then m2 else m4)"
    using assms(1)
    by (auto simp: instantiate_def Let_def m2_def wp_def n_def m3_def m4_def
        split: sum.splits if_splits)
  have w: "width m3 \<le> wp"
    using round_up_ge [OF assms(2), of "width m2"] by (simp add: wp_def m3_def)
  have l: "(1 + n) * wp \<le> length (data m3)"
    using length_copy_into_ge [of "replicate ((1 + n) * wp) nan" "weight pos_data" 0]
    by (simp add: m3_def)
  have "0 + length (field_table m3) \<le> n"
    by (simp add: m3_def n_def)
  moreover have "fields_in_block m3 {}"
    by (simp add: fields_in_block_def)
  ultimately have k: "width m4 = width m3 \<and> field_table m4 = field_table m3 \<and>
      fields_in_block m4 ({} \<union> snd ` set (field_table m3))"
    unfolding m4_def using init_fields_keeps [OF w l, of 0 "field_table m3" "{}"] by simp
  show ?thesis
  proof (cases "width m2 = 0")
    case True
    with eq assms(3) show ?thesis by simp
  next
    case False
    with eq k show ?thesis by simp
  qed
qed

text \<open>
  C9. On an instantiated mechanism \<open>set_parameter(key, values)\<close> raises the logic error
  "no such mechanism parameter" when the key is not in the field table, raises the logic
  error "mechanism parameter size mismatch" when the key is declared and the number of
  values differs from the width, and otherwise returns without error, the view of that
  field then holding exactly the values.
\<close>

theorem set_parameter_checked:
  assumes "instantiate alignment nan ident shared pos_data m0 = Inr m" and "0 < alignment"
  shows "(value_by_key (field_table m) key = None \<longrightarrow>
            set_parameter key values m = Inl (Logic_error ''internal error: no such mechanism parameter'')) \<and>
         (value_by_key (field_table m) key \<noteq> None \<and> length values \<noteq> width m \<longrightarrow>
            set_parameter key values m = Inl (Logic_error ''internal error: mechanism parameter size mismatch'')) \<and>
         (\<forall>slot. value_by_key (field_table m) key = Some slot \<and> length values = width m \<longrightarrow>
            (\<exists>m'. set_parameter key values m = Inr m' \<and> field_view m' slot = values \<and>
                  width m' = width m \<and> field_table m' = field_table m))"
proof (intro conjI allI impI)
  show "set_parameter key values m = Inl (Logic_error ''internal error: no such mechanism parameter'')"
    if "value_by_key (field_table m) key = None"
    using that by (simp add: set_parameter_def)
  show "set_parameter key values m = Inl (Logic_error ''internal error: mechanism parameter size mismatch'')"
    if "value_by_key (field_table m) key \<noteq> None \<and> length values \<noteq> width m"
    using that by (auto simp: set_parameter_def)
  show "\<exists>m'. set_parameter key values m = Inr m' \<and> field_view m' slot = values \<and>
            width m' = width m \<and> field_table m' = field_table m"
    if h: "value_by_key (field_table m) key = Some slot \<and> length values = width m" for slot
  proof (cases "0 < width m")
    case False
    with h show ?thesis
      by (auto simp: set_parameter_def field_view_def read_view_def split: option.splits)
  next
    case True
    have "slot \<in> snd ` set (field_table m)"
      using h by (auto simp: value_by_key_def dest!: map_of_SomeD intro: rev_image_eqI)
    then obtain off where off: "field_ptr m slot = Some off" "off + width m \<le> length (data m)"
      using instantiate_fields_in_block [OF assms True] by (auto simp: fields_in_block_def)
    have "set_parameter key values m = Inr (m\<lparr>data := copy_into values off (data m)\<rparr>)"
      using h True off by (simp add: set_parameter_def)
    moreover have "field_view (m\<lparr>data := copy_into values off (data m)\<rparr>) slot = values"
      using h off read_copy_into [of off "values" "data m"] by (simp add: field_view_def)
    ultimately show ?thesis by simp
  qed
qed

lemma replicate_numeral: "replicate (numeral k) x = x # replicate (pred_numeral k) x"
  by (simp add: numeral_eq_Suc)

theorem set_parameter_checked_witness:
  "instantiate 4 None 7 hh_shared hh_layout hh_mechanism = Inr hh_instance \<and>
   set_parameter ''nope'' [Some 2, Some 3] hh_instance
     = Inl (Logic_error ''internal error: no such mechanism parameter'') \<and>
   set_parameter ''el'' [Some 2] hh_instance
     = Inl (Logic_error ''internal error: mechanism parameter size mismatch'') \<and>
   (\<exists>m'. set_parameter ''el'' [Some 2, Some 3] hh_instance = Inr m' \<and>
         field_view m' 1 = [Some 2, Some 3])"
proof -
  have a: "instantiate 4 None 7 hh_shared hh_layout hh_mechanism = Inr hh_instance"
    by (simp add: hh_instance_def instantiate_def hh_shared_def hh_layout_def hh_mechanism_def
        Let_def value_by_key_def round_up_def copy_into_def fill_into_def replicate_numeral)
  have p: "(0::nat) < 4" by simp
  have k0: "value_by_key (field_table hh_instance) ''nope'' = None"
    by (simp add: hh_instance_def value_by_key_def)
  have k1: "value_by_key (field_table hh_instance) ''el'' = Some 1"
    by (simp add: hh_instance_def value_by_key_def)
  have w: "width hh_instance = 2"
    by (simp add: hh_instance_def)
  from set_parameter_checked [OF a p, of "''nope''" "[Some 2, Some 3]"] k0
  have 1: "set_parameter ''nope'' [Some 2, Some 3] hh_instance
     = Inl (Logic_error ''internal error: no such mechanism parameter'')"
    by simp
  from set_parameter_checked [OF a p, of "''el''" "[Some 2]"] k1 w
  have 2: "set_parameter ''el'' [Some 2] hh_instance
     = Inl (Logic_error ''internal error: mechanism parameter size mismatch'')"
    by simp
  from set_parameter_checked [OF a p, of "''el''" "[Some 2, Some 3]"] k1 w
  have 3: "\<exists>m'. set_parameter ''el'' [Some 2, Some 3] hh_instance = Inr m' \<and>
         field_view m' 1 = [Some 2, Some 3]"
    by auto
  from a 1 2 3 show ?thesis by blast
qed

section \<open>\<open>on_components\<close> strictly inside a component\<close>

lemma max_value_Max: "xs \<noteq> [] \<Longrightarrow> max_value xs = Max (set xs)"
proof -
  assume "xs \<noteq> []"
  then obtain x ys where xs: "xs = x # ys" by (cases xs) auto
  have "(\<lambda>y m. if m < y then y else m) = (max :: real \<Rightarrow> real \<Rightarrow> real)"
    by (intro ext) (simp add: max_def not_le)
  moreover have "Max (set (x # ys)) = fold max ys x"
    by (rule Max.set_eq_fold)
  ultimately show ?thesis
    by (simp add: xs max_value_def)
qed

lemma interpolate_scan_eq:
  "interpolate_scan (length_from_prox p cpt) d cs
     = map (interpolate p cpt d) (filter (straddles p cpt d) cs)"
  by (induction cs) (simp_all add: Let_def straddles_def interpolate_def add.commute)

lemma on_component_interior:
  assumes "0 < relpos" and "relpos < 1" and "on_component p relpos cpt = Inr xs"
  shows "xs = points_on_component p relpos cpt \<and> cpt \<noteq> []"
proof -
  from assms(3) obtain c0 cs where cpt: "cpt = c0 # cs"
    by (cases cpt) (auto simp: on_component_def component_front_def)
  have f: "integrate_length (embedding p) (prox_loc c0) = length_from_prox p cpt"
    by (intro ext) (simp add: length_from_prox_def cpt)
  have m: "max_value (map (\<lambda>c. length_from_prox p cpt (dist_loc c)) cpt) = component_length p cpt"
    using max_value_Max [of "map (\<lambda>c. length_from_prox p cpt (dist_loc c)) cpt"]
    by (simp add: cpt component_length_def)
  have cf: "component_front p cpt = Inr c0"
    by (simp add: component_front_def cpt)
  have sp: "single_proximal p cpt = Inr ()"
    using assms(3) cf by (auto simp: on_component_def split: sum.splits)
  have "on_component p relpos cpt =
        Inr (interpolate_scan (integrate_length (embedding p) (prox_loc c0))
               (relpos * max_value (map (\<lambda>c. integrate_length (embedding p) (prox_loc c0) (dist_loc c)) cpt))
               cpt)"
    using assms(1,2) by (simp add: on_component_def cf sp Let_def)
  then have "on_component p relpos cpt =
        Inr (interpolate_scan (length_from_prox p cpt) (relpos * component_length p cpt) cpt)"
    unfolding f m .
  with assms(3) have "xs = interpolate_scan (length_from_prox p cpt) (relpos * component_length p cpt) cpt"
    by simp
  moreover have "cpt \<noteq> []"
    by (simp add: cpt)
  ultimately show ?thesis
    by (simp add: interpolate_scan_eq points_on_component_def Let_def)
qed

lemma on_components_loop_interior:
  assumes "0 < relpos" and "relpos < 1"
  shows "on_components_loop p relpos cpts L = Inr L' \<Longrightarrow>
         L' = L @ concat (map (points_on_component p relpos) cpts) \<and> [] \<notin> set cpts"
proof (induction cpts arbitrary: L)
  case Nil
  then show ?case by simp
next
  case (Cons cpt cpts)
  from Cons.prems obtain xs where xs: "on_component p relpos cpt = Inr xs"
    and rest: "on_components_loop p relpos cpts (L @ xs) = Inr L'"
    by (auto split: sum.splits)
  from on_component_interior [OF assms xs] Cons.IH [OF rest]
  show ?case by auto
qed

lemma interpolate_le_1: "pos (interpolate p cpt d c) \<le> 1"
  by (simp add: interpolate_def Let_def)

text \<open>
  C4. For \<open>0 < relpos < 1\<close>, whenever resolving \<open>on_components(relpos, reg)\<close> returns a
  list, the list is, sorted, the collection over the components of the resolved region
  of one point per cable that straddles \<open>relpos\<close> times the component's maximal length
  from its proximal end, each placed by linear length-interpolation within its cable and
  clamped to at most 1. In particular, on a component of total length 100 made of a cable
  of length 60 followed by one of length 40, \<open>on_components(0.5, region)\<close> returns the
  single point on the first cable at position 50/60.
\<close>

theorem on_components_interpolates:
  "(0 < relpos \<and> relpos < 1 \<and> thingify_region p reg = Inr cables \<and>
    thingify (on_components relpos reg) p = Inr L \<longrightarrow>
      L = sort_key loc_key (concat (map (points_on_component p relpos) (components p cables))) \<and>
      (\<forall>l \<in> set L. pos l \<le> 1)) \<and>
   thingify (on_components (1/2) whole_cell) two_branch_provider = Inr [\<lparr>branch = 0, pos = 50/60\<rparr>]"
proof (intro conjI impI)
  assume h: "0 < relpos \<and> relpos < 1 \<and> thingify_region p reg = Inr cables \<and>
    thingify (on_components relpos reg) p = Inr L"
  then obtain L0 where L0: "on_components_loop p relpos (components p cables) [] = Inr L0"
    and L: "L = sort_key loc_key L0"
    by (auto simp: on_components_def thingify_on_components_def split: sum.splits)
  from h on_components_loop_interior [OF _ _ L0]
  have eq: "L0 = concat (map (points_on_component p relpos) (components p cables))"
    by simp
  with L show "L = sort_key loc_key (concat (map (points_on_component p relpos) (components p cables)))"
    by simp
  show "\<forall>l \<in> set L. pos l \<le> 1"
    by (auto simp: L eq points_on_component_def Let_def interpolate_le_1)
next
  show "thingify (on_components (1/2) whole_cell) two_branch_provider = Inr [\<lparr>branch = 0, pos = 50/60\<rparr>]"
    by code_simp
qed

theorem on_components_interpolates_witness:
  "(0::real) < 1/2 \<and> (1/2::real) < 1 \<and>
   thingify_region two_branch_provider whole_cell = Inr whole_cell \<and>
   thingify (on_components (1/2) whole_cell) two_branch_provider = Inr [\<lparr>branch = 0, pos = 5/6\<rparr>] \<and>
   [\<lparr>branch = 0, pos = 5/6\<rparr>] =
     sort_key loc_key (concat (map (points_on_component two_branch_provider (1/2))
       (components two_branch_provider whole_cell))) \<and>
   pos \<lparr>branch = 0, pos = 5/6\<rparr> \<le> 1"
proof -
  have r: "thingify_region two_branch_provider whole_cell = Inr whole_cell"
    by (simp add: two_branch_provider_def whole_cell_def)
  have t: "thingify (on_components (1/2) whole_cell) two_branch_provider = Inr [\<lparr>branch = 0, pos = 5/6\<rparr>]"
    by code_simp
  from on_components_interpolates
         [of "1/2" two_branch_provider whole_cell whole_cell "[\<lparr>branch = 0, pos = 5/6\<rparr>]"] r t
  show ?thesis by simp
qed

section \<open>Integration domains are the gap-junction components\<close>

lemma closure_add_edge:
  "(x, y) \<in> (insert (a, b) (insert (b, a) S))\<^sup>* \<longleftrightarrow>
   (x, y) \<in> S\<^sup>* \<or> ((x, a) \<in> S\<^sup>* \<and> (b, y) \<in> S\<^sup>*) \<or> ((x, b) \<in> S\<^sup>* \<and> (a, y) \<in> S\<^sup>*)"
    (is "?L \<longleftrightarrow> ?R x y")
proof
  assume ?L
  then show "?R x y"
  proof (induction rule: rtrancl_induct)
    case base
    then show ?case by simp
  next
    case (step y z)
    from step.hyps(2) consider "(y, z) \<in> S" | "y = a \<and> z = b" | "y = b \<and> z = a"
      by auto
    then show ?case
    proof cases
      case 1
      with step.IH show ?thesis
        by (meson rtrancl.rtrancl_into_rtrancl)
    next
      case 2
      with step.IH show ?thesis
        by (meson rtrancl.rtrancl_refl rtrancl_trans)
    next
      case 3
      with step.IH show ?thesis
        by (meson rtrancl.rtrancl_refl rtrancl_trans)
    qed
  qed
next
  let ?S' = "insert (a, b) (insert (b, a) S)"
  have sub: "(u, v) \<in> ?S'\<^sup>*" if "(u, v) \<in> S\<^sup>*" for u v
    using that rtrancl_mono [of S ?S'] by auto
  have ab: "(a, b) \<in> ?S'\<^sup>*" and ba: "(b, a) \<in> ?S'\<^sup>*"
    by auto
  assume "?R x y"
  then show ?L
    using sub ab ba by (meson rtrancl_trans)
qed

lemma connected_by_snoc_inside:
  assumes "a \<in> set gids" and "b \<in> set gids"
  shows "(x, y) \<in> connected_by gids (es @ [(a, b)]) \<longleftrightarrow>
         (x, y) \<in> connected_by gids es \<or>
         ((x, a) \<in> connected_by gids es \<and> (b, y) \<in> connected_by gids es) \<or>
         ((x, b) \<in> connected_by gids es \<and> (a, y) \<in> connected_by gids es)"
proof -
  have "restricted_edges gids (es @ [(a, b)]) = insert (a, b) (restricted_edges gids es)"
    using assms by (auto simp: restricted_edges_def)
  then have "restricted_edges gids (es @ [(a, b)]) \<union> (restricted_edges gids (es @ [(a, b)]))\<inverse>
      = insert (a, b) (insert (b, a) (restricted_edges gids es \<union> (restricted_edges gids es)\<inverse>))"
    by auto
  then show ?thesis
    unfolding connected_by_def by (simp only: closure_add_edge)
qed

lemma connected_by_snoc_outside:
  assumes "a \<notin> set gids \<or> b \<notin> set gids"
  shows "connected_by gids (es @ [(a, b)]) = connected_by gids es"
proof -
  have "restricted_edges gids (es @ [(a, b)]) = restricted_edges gids es"
    using assms by (auto simp: restricted_edges_def)
  then show ?thesis
    by (simp add: connected_by_def)
qed

lemma labels_agree_union:
  assumes "labels_agree gids tbl es"
  shows "labels_agree gids (uf_union tbl e) (es @ [e])"
proof -
  obtain a b where e: "e = (a, b)" by (cases e)
  from assms have fst_tbl: "map fst tbl = gids"
    and agree: "\<And>i j. i < length gids \<Longrightarrow> j < length gids \<Longrightarrow>
        snd (tbl ! i) = snd (tbl ! j) \<longleftrightarrow> (gids ! i, gids ! j) \<in> connected_by gids es"
    by (auto simp: labels_agree_def)
  have len: "length tbl = length gids"
    using fst_tbl by (metis length_map)
  have dom: "map_of tbl g = None \<longleftrightarrow> g \<notin> set gids" for g
    using fst_tbl by (metis map_of_eq_None_iff set_map)
  show ?thesis
  proof (cases "a \<in> set gids \<and> b \<in> set gids")
    case False
    then have "map_of tbl a = None \<or> map_of tbl b = None"
      using dom by auto
    then have "uf_union tbl e = tbl"
      by (auto simp: uf_union_def e split: option.splits)
    with False assms show ?thesis
      by (simp add: labels_agree_def e connected_by_snoc_outside)
  next
    case True
    then obtain la lb where la: "map_of tbl a = Some la" and lb: "map_of tbl b = Some lb"
      using dom by (metis not_None_eq)
    have at: "\<exists>k < length gids. gids ! k = g \<and> snd (tbl ! k) = l" if "map_of tbl g = Some l" for g l
    proof -
      from that have "(g, l) \<in> set tbl" by (rule map_of_SomeD)
      then obtain k where k: "k < length tbl" "tbl ! k = (g, l)"
        by (auto simp: in_set_conv_nth)
      have "gids ! k = fst (tbl ! k)"
        using k(1) fst_tbl by (metis nth_map)
      with k len show ?thesis by auto
    qed
    from at [OF la] obtain ia where ia: "ia < length gids" "gids ! ia = a" "snd (tbl ! ia) = la"
      by blast
    from at [OF lb] obtain ib where ib: "ib < length gids" "gids ! ib = b" "snd (tbl ! ib) = lb"
      by blast
    define tbl' where "tbl' = map (\<lambda>(g, l). (g, if l = lb then la else l)) tbl"
    have u: "uf_union tbl (a, b) = tbl'"
      by (simp add: uf_union_def la lb tbl'_def)
    have fst': "map fst tbl' = gids"
      using fst_tbl by (simp add: tbl'_def case_prod_unfold comp_def)
    have snd': "snd (tbl' ! i) = (if snd (tbl ! i) = lb then la else snd (tbl ! i))"
      if "i < length gids" for i
      using that len by (simp add: tbl'_def case_prod_unfold)
    have "snd (tbl' ! i) = snd (tbl' ! j) \<longleftrightarrow> (gids ! i, gids ! j) \<in> connected_by gids (es @ [(a, b)])"
      if i: "i < length gids" and j: "j < length gids" for i j
    proof -
      have "(gids ! i, gids ! j) \<in> connected_by gids (es @ [(a, b)]) \<longleftrightarrow>
            snd (tbl ! i) = snd (tbl ! j) \<or>
            (snd (tbl ! i) = la \<and> lb = snd (tbl ! j)) \<or>
            (snd (tbl ! i) = lb \<and> la = snd (tbl ! j))"
        using connected_by_snoc_inside [of a gids b "gids ! i" "gids ! j" es] True
          agree [OF i j] agree [OF i ia(1)] agree [OF ib(1) j] agree [OF i ib(1)] agree [OF ia(1) j]
          ia(2,3) ib(2,3)
        by simp
      then show ?thesis
        using snd' [OF i] snd' [OF j] by auto
    qed
    then show ?thesis
      by (simp add: labels_agree_def u fst' e)
  qed
qed

lemma labels_agree_foldl:
  "labels_agree gids tbl es \<Longrightarrow> labels_agree gids (foldl uf_union tbl es') (es @ es')"
proof (induction es' arbitrary: tbl es)
  case Nil
  then show ?case by simp
next
  case (Cons e es')
  from Cons.IH [OF labels_agree_union [OF Cons.prems, of e]]
  show ?case by simp
qed

lemma labels_agree_init: "labels_agree gids (map (\<lambda>g. (g, g)) gids) []"
  by (simp add: labels_agree_def connected_by_def restricted_edges_def comp_def)

lemma connected_by_gj_edges: "connected_by gids (gj_edges rec gids) = gj_connected rec gids"
proof -
  have "restricted_edges gids (gj_edges rec gids) = gj_graph rec gids"
    by (auto simp: restricted_edges_def gj_edges_def gj_graph_def)
  then show ?thesis
    by (simp add: connected_by_def gj_connected_def)
qed

lemma gj_labels_agree: "labels_agree gids (gj_labels rec gids) (gj_edges rec gids)"
  using labels_agree_foldl [OF labels_agree_init, of gids "gj_edges rec gids"]
  by (simp add: gj_labels_def)

lemma index_of_less: "x \<in> set ys \<Longrightarrow> index_of x ys < length ys"
  by (induction ys) auto

lemma nth_index_of: "x \<in> set ys \<Longrightarrow> ys ! index_of x ys = x"
  by (induction ys) auto

lemma index_of_nth: "distinct ys \<Longrightarrow> k < length ys \<Longrightarrow> index_of (ys ! k) ys = k"
proof (induction ys arbitrary: k)
  case Nil
  then show ?case by simp
next
  case (Cons y ys)
  then show ?case by (cases k) auto
qed

lemma index_of_eq_iff:
  "x \<in> set ys \<Longrightarrow> y \<in> set ys \<Longrightarrow> index_of x ys = index_of y ys \<longleftrightarrow> x = y"
  by (metis nth_index_of)

lemma set_first_occurrences: "set (first_occurrences xs) = set xs"
  by (simp add: first_occurrences_def)

lemma distinct_first_occurrences: "distinct (first_occurrences xs)"
  by (simp add: first_occurrences_def)

lemma gj_edges_cong:
  "(\<forall>g \<in> set gids. gap_junctions_on rec' g = gap_junctions_on rec g) \<Longrightarrow>
   gj_edges rec' gids = gj_edges rec gids"
proof -
  assume "\<forall>g \<in> set gids. gap_junctions_on rec' g = gap_junctions_on rec g"
  then have "map (\<lambda>g. map (\<lambda>c. (g, fst (peer c))) (gap_junctions_on rec' g)) gids
           = map (\<lambda>g. map (\<lambda>c. (g, fst (peer c))) (gap_junctions_on rec g)) gids"
    by (intro map_cong) simp_all
  then show ?thesis
    unfolding gj_edges_def by (rule arg_cong)
qed

text \<open>
  C8. For every recipe and every list of gids, the partition that \<open>fvm_intdom\<close> returns
  gives two listed cells the same integration domain id exactly when they are connected,
  transitively, by gap junctions among the listed gids; the ids used are exactly
  \<open>0, ..., n-1\<close> for the returned domain count \<open>n\<close>; and the result is a function of the
  gid list and of the junctions of the listed cells alone.
\<close>

theorem fvm_intdom_components:
  assumes "fvm_intdom rec gids = (n, ids)"
  shows "length ids = length gids \<and>
         (\<forall>i < length gids. \<forall>j < length gids.
            ids ! i = ids ! j \<longleftrightarrow> (gids ! i, gids ! j) \<in> gj_connected rec gids) \<and>
         set ids = {0 ..< n} \<and>
         ((\<forall>g \<in> set gids. gap_junctions_on rec' g = gap_junctions_on rec g) \<longrightarrow>
            fvm_intdom rec' gids = (n, ids))"
proof -
  define tbl where "tbl = gj_labels rec gids"
  define reps where "reps = map snd tbl"
  define doms where "doms = first_occurrences reps"
  have n: "n = length doms" and ids: "ids = map (\<lambda>r. index_of r doms) reps"
    using assms by (simp_all add: fvm_intdom_def Let_def tbl_def reps_def doms_def)
  have agree: "labels_agree gids tbl (gj_edges rec gids)"
    unfolding tbl_def by (rule gj_labels_agree)
  then have len: "length tbl = length gids"
    by (metis labels_agree_def length_map)
  have len_ids: "length ids = length gids"
    by (simp add: ids reps_def len)
  have in_doms: "reps ! i \<in> set doms" if "i < length gids" for i
    using that by (simp add: doms_def set_first_occurrences reps_def len)
  have ids_nth: "ids ! i = index_of (reps ! i) doms" if "i < length gids" for i
    using that by (simp add: ids reps_def len)
  have conn: "ids ! i = ids ! j \<longleftrightarrow> (gids ! i, gids ! j) \<in> gj_connected rec gids"
    if i: "i < length gids" and j: "j < length gids" for i j
  proof -
    have "ids ! i = ids ! j \<longleftrightarrow> reps ! i = reps ! j"
      using ids_nth [OF i] ids_nth [OF j] index_of_eq_iff [OF in_doms [OF i] in_doms [OF j]]
      by simp
    also have "\<dots> \<longleftrightarrow> snd (tbl ! i) = snd (tbl ! j)"
      using i j by (simp add: reps_def len)
    also have "\<dots> \<longleftrightarrow> (gids ! i, gids ! j) \<in> connected_by gids (gj_edges rec gids)"
      using agree i j by (simp add: labels_agree_def)
    finally show ?thesis
      by (simp add: connected_by_gj_edges)
  qed
  have range: "set ids = {0 ..< n}"
  proof (intro set_eqI iffI)
    fix k assume "k \<in> set ids"
    then obtain r where "r \<in> set reps" "k = index_of r doms"
      by (auto simp: ids)
    then show "k \<in> {0 ..< n}"
      using index_of_less [of r doms] by (simp add: n doms_def set_first_occurrences)
  next
    fix k assume "k \<in> {0 ..< n}"
    then have k: "k < length doms" by (simp add: n)
    then have "doms ! k \<in> set reps"
      using nth_mem [OF k] by (simp add: doms_def set_first_occurrences)
    moreover have "index_of (doms ! k) doms = k"
      using k by (simp add: index_of_nth doms_def distinct_first_occurrences)
    ultimately show "k \<in> set ids"
      by (force simp: ids)
  qed
  have det: "fvm_intdom rec' gids = (n, ids)"
    if "\<forall>g \<in> set gids. gap_junctions_on rec' g = gap_junctions_on rec g"
    using gj_edges_cong [OF that] assms by (simp add: fvm_intdom_def gj_labels_def)
  from len_ids conn range det show ?thesis by blast
qed

theorem fvm_intdom_components_witness:
  "fvm_intdom gap_recipe_0 [11, 5, 2, 3, 0, 8, 7] = (4, [0, 1, 2, 2, 1, 3, 2]) \<and>
   (2, 7) \<in> gj_connected gap_recipe_0 [11, 5, 2, 3, 0, 8, 7] \<and>
   (11, 5) \<notin> gj_connected gap_recipe_0 [11, 5, 2, 3, 0, 8, 7] \<and>
   set [0, 1, 2, 2, 1, 3, 2] = {0 ..< (4::nat)}"
proof -
  have r: "fvm_intdom gap_recipe_0 [11, 5, 2, 3, 0, 8, 7] = (4, [0, 1, 2, 2, 1, 3, 2])"
    by code_simp
  note t = fvm_intdom_components [OF r, of gap_recipe_0]
  from t have c: "\<forall>i < 7. \<forall>j < 7. [0, 1, 2, 2, 1, 3, 2 :: nat] ! i = [0, 1, 2, 2, 1, 3, 2] ! j \<longleftrightarrow>
      ([11, 5, 2, 3, 0, 8, 7 :: nat] ! i, [11, 5, 2, 3, 0, 8, 7] ! j) \<in> gj_connected gap_recipe_0 [11, 5, 2, 3, 0, 8, 7]"
    by simp
  from c [rule_format, of 2 6] have 1: "(2, 7) \<in> gj_connected gap_recipe_0 [11, 5, 2, 3, 0, 8, 7]"
    by simp
  from c [rule_format, of 0 1] have 2: "(11, 5) \<notin> gj_connected gap_recipe_0 [11, 5, 2, 3, 0, 8, 7]"
    by simp
  from t have 3: "set [0, 1, 2, 2, 1, 3, 2] = {0 ..< (4::nat)}"
    by blast
  from r 1 2 3 show ?thesis by blast
qed

text \<open>The expectations of the unit tests \<open>integration_domains\<close> and \<open>cell_group_gj\<close>.\<close>

lemma integration_domains_test:
  "fvm_intdom gap_recipe_0 [11, 5, 2, 3, 0, 8, 7] = (4, [0, 1, 2, 2, 1, 3, 2]) \<and>
   fvm_intdom gap_recipe_1 [11, 5, 2, 3, 0, 8, 7] = (7, [0, 1, 2, 3, 4, 5, 6]) \<and>
   fvm_intdom gap_recipe_2 [5, 2, 3, 0] = (1, [0, 0, 0, 0])"
  by code_simp

lemma cell_group_gj_test:
  "fvm_intdom ring_recipe [0, 1, 2, 3, 4, 5, 6, 7, 8, 9] = (6, [0, 1, 0, 2, 0, 3, 0, 4, 0, 5]) \<and>
   fvm_intdom ring_recipe [10, 11, 12, 13, 14, 15, 16, 17, 18, 19] = (6, [0, 1, 0, 2, 0, 3, 0, 4, 0, 5])"
  by code_simp

section \<open>\<open>uniform\<close>: the walk, the splitting of the draws, and the regions it misses\<close>

lemma part_at_Suc:
  "part_at bounds (Suc idx) = Inr rng \<Longrightarrow> part_at bounds idx = Inr (bounds ! idx, bounds ! Suc idx)"
  by (auto simp: part_at_def split: if_splits)

lemma part_at_eq: "part_at bounds idx = Inr rng \<Longrightarrow> rng = (bounds ! idx, bounds ! Suc idx)"
  by (auto simp: part_at_def split: if_splits)

lemma advance_from_start:
  "part_at bounds idx = Inr rng \<Longrightarrow> part_at bounds 0 = Inr r0 \<Longrightarrow>
   (\<forall>k < idx. bounds ! Suc k < e) \<Longrightarrow>
   advance_cable bounds 0 r0 e = advance_cable bounds idx rng e"
proof (induction idx arbitrary: rng)
  case 0
  then show ?case by simp
next
  case (Suc idx)
  have p: "part_at bounds idx = Inr (bounds ! idx, bounds ! Suc idx)"
    using Suc.prems(1) by (rule part_at_Suc)
  have "advance_cable bounds 0 r0 e = advance_cable bounds idx (bounds ! idx, bounds ! Suc idx) e"
    using Suc.IH [OF p Suc.prems(2)] Suc.prems(3) by simp
  also have "\<dots> = advance_cable bounds (Suc idx) rng e"
    using Suc.prems(1,3) by (subst advance_cable.simps) simp
  finally show ?case .
qed

lemma advance_cable_result:
  "advance_cable bounds idx rng e = Inr (k, r) \<Longrightarrow> part_at bounds idx = Inr rng \<Longrightarrow>
   idx \<le> k \<and> part_at bounds k = Inr r \<and> e \<le> snd r \<and> (\<forall>j. idx \<le> j \<and> j < k \<longrightarrow> bounds ! Suc j < e)"
proof (induction bounds idx rng e rule: advance_cable.induct)
  case (1 bounds cable_idx rng e)
  show ?case
  proof (cases "snd rng < e")
    case False
    with "1.prems" show ?thesis
      by (subst (asm) advance_cable.simps) auto
  next
    case True
    with "1.prems"(1) obtain rng' where p': "part_at bounds (Suc cable_idx) = Inr rng'"
      and a': "advance_cable bounds (Suc cable_idx) rng' e = Inr (k, r)"
      by (subst (asm) advance_cable.simps) (auto split: sum.splits)
    from "1.IH" [OF True p' a' p']
    have ih: "Suc cable_idx \<le> k \<and> part_at bounds k = Inr r \<and> e \<le> snd r \<and>
              (\<forall>j. Suc cable_idx \<le> j \<and> j < k \<longrightarrow> bounds ! Suc j < e)" .
    have "bounds ! Suc cable_idx < e"
      using True part_at_eq [OF "1.prems"(2)] by simp
    have "bounds ! Suc j < e" if "cable_idx \<le> j \<and> j < k" for j
    proof (cases "j = cable_idx")
      case True
      with \<open>bounds ! Suc cable_idx < e\<close> show ?thesis by simp
    next
      case False
      with that have "Suc cable_idx \<le> j \<and> j < k" by simp
      with ih show ?thesis by blast
    qed
    with ih show ?thesis
      by simp
  qed
qed

text \<open>A sample that does not exceed the last bound is reached without leaving the partition.\<close>

lemma advance_cable_ok:
  "part_at bounds idx = Inr rng \<Longrightarrow> e \<le> last bounds \<Longrightarrow>
   \<exists>k r. advance_cable bounds idx rng e = Inr (k, r)"
proof (induction bounds idx rng e rule: advance_cable.induct)
  case (1 bounds cable_idx rng e)
  show ?case
  proof (cases "snd rng < e")
    case False
    then show ?thesis
      by (subst advance_cable.simps) simp
  next
    case True
    have rng: "rng = (bounds ! cable_idx, bounds ! Suc cable_idx)"
      and lt: "Suc cable_idx < length bounds"
      using "1.prems"(1) by (auto simp: part_at_def split: if_splits)
    have "Suc (Suc cable_idx) < length bounds"
    proof (rule ccontr)
      assume "\<not> Suc (Suc cable_idx) < length bounds"
      with lt have "Suc cable_idx = length bounds - 1" by simp
      then have "bounds ! Suc cable_idx = last bounds"
        using lt by (metis last_conv_nth length_greater_0_conv less_nat_zero_code list.size(3))
      with True rng "1.prems"(2) show False by simp
    qed
    then have p': "part_at bounds (Suc cable_idx) = Inr (bounds ! Suc cable_idx, bounds ! Suc (Suc cable_idx))"
      by (simp add: part_at_def)
    from "1.IH" [OF True p' p' "1.prems"(2)]
    show ?thesis
      using True p' by (subst advance_cable.simps) simp
  qed
qed

lemma uniform_walk_collect:
  "sorted es \<Longrightarrow> part_at bounds 0 = Inr r0 \<Longrightarrow> part_at bounds idx = Inr rng \<Longrightarrow>
   (\<forall>e \<in> set es. \<forall>k < idx. bounds ! Suc k < e) \<Longrightarrow>
   uniform_walk nan bounds cables idx rng es L = collect (locate_sample nan bounds cables) es L"
proof (induction es arbitrary: idx rng L)
  case Nil
  then show ?case by simp
next
  case (Cons e es)
  have start: "advance_cable bounds 0 r0 e = advance_cable bounds idx rng e"
    using advance_from_start [OF Cons.prems(3,2), of e] Cons.prems(4) by simp
  show ?case
  proof (cases "advance_cable bounds idx rng e")
    case (Inl err)
    then show ?thesis
      using start by (simp add: locate_sample_def Cons.prems(2))
  next
    case (Inr kr)
    obtain k r where kr: "kr = (k, r)" by (cases kr)
    from advance_cable_result [OF Inr [unfolded kr] Cons.prems(3)]
    have res: "idx \<le> k" "part_at bounds k = Inr r"
      "\<forall>j. idx \<le> j \<and> j < k \<longrightarrow> bounds ! Suc j < e"
      by simp_all
    have later: "\<forall>e' \<in> set es. \<forall>j < k. bounds ! Suc j < e'"
    proof (intro ballI allI impI)
      fix e' j assume e': "e' \<in> set es" and j: "j < k"
      have "e \<le> e'" using Cons.prems(1) e' by simp
      show "bounds ! Suc j < e'"
      proof (cases "j < idx")
        case True
        then show ?thesis using Cons.prems(4) e' by simp
      next
        case False
        then have "bounds ! Suc j < e" using res(3) j by simp
        with \<open>e \<le> e'\<close> show ?thesis by simp
      qed
    qed
    have s: "sorted es" using Cons.prems(1) by simp
    note ih = Cons.IH [OF s Cons.prems(2) res(2) later]
    show ?thesis
      using start Inr ih
      by (simp add: kr locate_sample_def place_on_cable_def Cons.prems(2) Let_def)
  qed
qed

lemma collect_Inr:
  "collect f es L = Inr L' \<Longrightarrow>
     (\<forall>e \<in> set es. \<exists>l. f e = Inr l) \<and> L' = L @ map (\<lambda>e. projr (f e)) es"
proof (induction es arbitrary: L)
  case Nil
  then show ?case by simp
next
  case (Cons e es)
  from Cons.prems obtain l where l: "f e = Inr l" and rest: "collect f es (L @ [l]) = Inr L'"
    by (auto split: sum.splits)
  from Cons.IH [OF rest] l show ?case by simp
qed

lemma collect_ok:
  "(\<forall>e \<in> set es. \<exists>l. f e = Inr l) \<Longrightarrow> collect f es L = Inr (L @ map (\<lambda>e. projr (f e)) es)"
  by (induction es arbitrary: L) (auto split: sum.splits)

lemma running_sums_nth:
  "k < length xs \<Longrightarrow>
   (acc # running_sums acc xs) ! Suc k = (acc # running_sums acc xs) ! k + xs ! k"
proof (induction xs arbitrary: acc k)
  case Nil
  then show ?case by simp
next
  case (Cons x xs)
  show ?case
  proof (cases k)
    case 0
    then show ?thesis by simp
  next
    case (Suc k')
    with Cons.prems have "k' < length xs" by simp
    from Cons.IH [OF this, of "acc + x"] Suc show ?thesis by simp
  qed
qed

lemma make_partition_step:
  "k < length sizes \<Longrightarrow> make_partition sizes ! Suc k = make_partition sizes ! k + sizes ! k"
  unfolding make_partition_def by (rule running_sums_nth)

lemma length_running_sums: "length (running_sums acc xs) = length xs"
  by (induction xs arbitrary: acc) simp_all

lemma length_make_partition: "length (make_partition sizes) = Suc (length sizes)"
  by (simp add: make_partition_def length_running_sums)

lemma last_running_sums: "last (acc # running_sums acc xs) = acc + sum_list xs"
  by (induction xs arbitrary: acc) (simp_all add: add.assoc)

lemma last_make_partition: "last (make_partition sizes) = sum_list sizes"
  unfolding make_partition_def using last_running_sums [of 0 sizes] by simp

lemma lerp_alt: "lerp a b u = a + u * (b - a)"
  by (simp add: lerp_def algebra_simps)

lemma lerp_within: "a \<le> b \<Longrightarrow> 0 \<le> u \<Longrightarrow> u \<le> 1 \<Longrightarrow> a \<le> lerp a b u \<and> lerp a b u \<le> b"
proof -
  assume ab: "a \<le> b" and u: "0 \<le> u" "u \<le> 1"
  have "0 \<le> u * (b - a)" using ab u by simp
  moreover have "u * (b - a) \<le> 1 * (b - a)"
    using ab u by (intro mult_right_mono) simp_all
  ultimately show ?thesis by (simp add: lerp_alt)
qed

lemma lerp_mono: "a \<le> b \<Longrightarrow> u \<le> v \<Longrightarrow> lerp a b u \<le> lerp a b v"
  by (simp add: lerp_alt mult_right_mono)

lemma locate_sample_Inr:
  assumes "locate_sample nan bounds cables e = Inr l"
  obtains k where "k < length cables" and "Suc k < length bounds" and "e \<le> bounds ! Suc k"
    and "\<forall>j < k. bounds ! Suc j < e"
    and "l = place_on_cable nan (cables ! k) (bounds ! k, bounds ! Suc k) e"
proof -
  from assms obtain r0 where r0: "part_at bounds 0 = Inr r0"
    by (auto simp: locate_sample_def split: sum.splits)
  with assms obtain k r where adv: "advance_cable bounds 0 r0 e = Inr (k, r)"
    by (auto simp: locate_sample_def split: sum.splits)
  from advance_cable_result [OF adv r0]
  have res: "part_at bounds k = Inr r" "e \<le> snd r" "\<forall>j < k. bounds ! Suc j < e"
    by simp_all
  have r: "r = (bounds ! k, bounds ! Suc k)" and lt: "Suc k < length bounds"
    using res(1) by (auto simp: part_at_def split: if_splits)
  from assms r0 adv have "k < length cables" and "l = place_on_cable nan (cables ! k) r e"
    by (auto simp: locate_sample_def split: if_splits)
  with res lt show ?thesis
    using that [of k] by (simp add: r)
qed

lemma locate_sample_ok:
  assumes "cables \<noteq> []" and "bounds = make_partition (map len cables)" and "e \<le> last bounds"
  shows "\<exists>l. locate_sample nan bounds cables e = Inr l"
proof -
  have len: "length bounds = Suc (length cables)"
    by (simp add: assms(2) length_make_partition)
  with assms(1) have r0: "part_at bounds 0 = Inr (bounds ! 0, bounds ! Suc 0)"
    by (simp add: part_at_def)
  from advance_cable_ok [OF r0 assms(3)]
  obtain k r where adv: "advance_cable bounds 0 (bounds ! 0, bounds ! Suc 0) e = Inr (k, r)"
    by blast
  from advance_cable_result [OF adv r0] have "part_at bounds k = Inr r"
    by simp
  then have "k < length cables"
    using len by (auto simp: part_at_def split: if_splits)
  then show ?thesis
    by (simp add: locate_sample_def r0 adv)
qed

lemma locate_sample_mono:
  assumes ext: "is_extent cables"
    and bounds: "bounds = make_partition (map len cables)"
    and positive: "\<forall>c \<in> set cables. 0 < len c"
    and e: "0 \<le> e" "e \<le> e'"
    and l: "locate_sample nan bounds cables e = Inr l"
    and l': "locate_sample nan bounds cables e' = Inr l'"
  shows "loc_key l \<le> loc_key l'"
proof -
  from l obtain k where k: "k < length cables" "e \<le> bounds ! Suc k"
    "\<forall>j < k. bounds ! Suc j < e"
    "l = place_on_cable nan (cables ! k) (bounds ! k, bounds ! Suc k) e"
    by (rule locate_sample_Inr)
  from l' obtain k' where k': "k' < length cables" "e' \<le> bounds ! Suc k'"
    "\<forall>j < k'. bounds ! Suc j < e'"
    "l' = place_on_cable nan (cables ! k') (bounds ! k', bounds ! Suc k') e'"
    by (rule locate_sample_Inr)
  have width: "0 < bounds ! Suc i - bounds ! i" if "i < length cables" for i
    using make_partition_step [of i "map len cables"] that positive nth_mem [OF that]
    by (simp add: bounds)
  have placed: "place_on_cable nan (cables ! i) (bounds ! i, bounds ! Suc i) x
      = \<lparr>branch = cable_branch (cables ! i),
         pos = lerp (prox_pos (cables ! i)) (dist_pos (cables ! i))
                 ((x - bounds ! i) / (bounds ! Suc i - bounds ! i))\<rparr>"
    if "i < length cables" for i x
    using width [OF that] by (simp add: place_on_cable_def)
  have b0: "bounds ! 0 = 0"
    by (simp add: bounds make_partition_def)
  have lower: "bounds ! i \<le> x" if "0 \<le> x" "\<forall>j < i. bounds ! Suc j < x" for i x
  proof (cases i)
    case 0
    with b0 that(1) show ?thesis by simp
  next
    case (Suc j)
    with that(2) show ?thesis by (simp add: less_imp_le)
  qed
  have frac: "0 \<le> (x - bounds ! i) / (bounds ! Suc i - bounds ! i) \<and>
              (x - bounds ! i) / (bounds ! Suc i - bounds ! i) \<le> 1"
    if "i < length cables" "0 \<le> x" "\<forall>j < i. bounds ! Suc j < x" "x \<le> bounds ! Suc i" for i x
    using width [OF that(1)] lower [OF that(2,3)] that(4) by simp
  have order: "prox_pos (cables ! i) \<le> dist_pos (cables ! i)" if "i < length cables" for i
    using ext that by (simp add: is_extent_def list_all_length)
  have e': "0 \<le> e'" using e by simp
  note u = frac [OF k(1) e(1) k(3,2)]
  note u' = frac [OF k'(1) e' k'(3,2)]
  note lk = k(4) [unfolded placed [OF k(1)]]
  note lk' = k'(4) [unfolded placed [OF k'(1)]]
  have kk: "k \<le> k'"
  proof (rule ccontr)
    assume "\<not> k \<le> k'"
    then have "bounds ! Suc k' < e" using k(3) by simp
    with e(2) k'(2) show False by simp
  qed
  show ?thesis
  proof (cases "k = k'")
    case True
    have "(e - bounds ! k) / (bounds ! Suc k - bounds ! k)
          \<le> (e' - bounds ! k) / (bounds ! Suc k - bounds ! k)"
      using width [OF k(1)] e(2) by (simp add: divide_right_mono)
    then have "pos l \<le> pos l'"
      using order [OF k(1)] by (simp add: lk lk' True [symmetric] lerp_mono)
    then show ?thesis
      by (simp add: loc_key_def lk lk' True)
  next
    case False
    with kk have lt: "k < k'" by simp
    have "loc_key (dist_loc (cables ! k)) \<le> loc_key (prox_loc (cables ! k'))"
      using ext lt k'(1) by (simp add: is_extent_def sorted_wrt_iff_nth_less)
    moreover have "pos l \<le> dist_pos (cables ! k)"
      using lerp_within [OF order [OF k(1)]] u by (simp add: lk)
    moreover have "prox_pos (cables ! k') \<le> pos l'"
      using lerp_within [OF order [OF k'(1)]] u' by (simp add: lk')
    ultimately show ?thesis
      by (auto simp: loc_key_def dist_loc_def prox_loc_def lk lk' less_eq_prod_def)
  qed
qed

lemma thingify_uniform_collect:
  assumes "thingify_region p reg = Inr cables"
  shows "thingify (uniform reg left right seed) p =
     (case part_at (make_partition (map (integrate_length_cable (embedding p)) cables)) 0 of
        Inl e \<Rightarrow> Inl e
      | Inr r0 \<Rightarrow>
          collect (locate_sample (not_a_number p)
                     (make_partition (map (integrate_length_cable (embedding p)) cables)) cables)
            (sort (map (\<lambda>c. c * last (make_partition (map (integrate_length_cable (embedding p)) cables)))
                     (util_uniform (cbrng p) seed left right))) [])"
proof -
  let ?bounds = "make_partition (map (integrate_length_cable (embedding p)) cables)"
  let ?pos = "sort (map (\<lambda>c. c * last ?bounds) (util_uniform (cbrng p) seed left right))"
  show ?thesis
  proof (cases "part_at ?bounds 0")
    case (Inl err)
    then show ?thesis
      using assms by (simp add: uniform_def thingify_uniform_def Let_def)
  next
    case (Inr r0)
    have "uniform_walk (not_a_number p) ?bounds cables 0 r0 ?pos []
        = collect (locate_sample (not_a_number p) ?bounds cables) ?pos []"
      using uniform_walk_collect [of ?pos ?bounds r0 0 r0 "not_a_number p" cables "[]"] Inr by simp
    then show ?thesis
      using assms Inr by (simp add: uniform_def thingify_uniform_def Let_def)
  qed
qed

lemma util_uniform_split:
  "left \<le> m \<Longrightarrow> m < right \<Longrightarrow>
   util_uniform g seed left right = util_uniform g seed left m @ util_uniform g seed (m + 1) right"
proof -
  assume "left \<le> m" "m < right"
  then have "[left ..< Suc m + (right - m)] = [left ..< Suc m] @ [Suc m ..< Suc m + (right - m)]"
    by (intro upt_add_eq_append) simp
  moreover have "Suc m + (right - m) = Suc right"
    using \<open>m < right\<close> by simp
  ultimately have "[left ..< Suc right] = [left ..< Suc m] @ [Suc m ..< Suc right]"
    by simp
  then show ?thesis
    by (simp add: util_uniform_def)
qed

lemma sort_key_unique:
  assumes "inj f" and "mset ys = mset xs" and "sorted (map f ys)"
  shows "sort_key f xs = ys"
proof (rule properties_for_sort_key [OF assms(2) _ assms(3)])
  fix k
  have "filter (\<lambda>x. f k = f x) zs = filter ((=) k) zs" for zs
    using assms(1) by (intro filter_cong) (auto dest: injD)
  then show "filter (\<lambda>x. f k = f x) ys = filter (\<lambda>x. f k = f x) xs"
    using assms(2) by (simp add: replicate_count_mset_eq_filter_eq [symmetric])
qed

text \<open>
  Where \<open>uniform\<close> does what C2 says, over the reals: on a region that resolves to a
  non-empty extent whose cables all have positive length, with draws in [0,1], every
  range resolves to a list, and for \<open>left \<le> m < right\<close> the whole range resolves to the
  concatenation of the two sub-ranges, sorted in the order on locations.
\<close>

lemma uniform_split_sorted:
  assumes region: "thingify_region p reg = Inr cables"
    and ext: "is_extent cables"
    and nonempty: "cables \<noteq> []"
    and positive: "\<forall>c \<in> set cables. 0 < integrate_length_cable (embedding p) c"
    and draws: "\<forall>i. 0 \<le> cbrng p seed i \<and> cbrng p seed i \<le> 1"
    and range: "left \<le> m" "m < right"
  shows "\<exists>A B. thingify (uniform reg left m seed) p = Inr A \<and>
               thingify (uniform reg (m + 1) right seed) p = Inr B \<and>
               thingify (uniform reg left right seed) p = Inr (sort_key loc_key (A @ B))"
proof -
  define bounds where "bounds = make_partition (map (integrate_length_cable (embedding p)) cables)"
  define S where "S l r = map (\<lambda>c. c * last bounds) (util_uniform (cbrng p) seed l r)" for l r
  define g where "g e = projr (locate_sample (not_a_number p) bounds cables e)" for e
  have "length bounds = Suc (length cables)"
    by (simp add: bounds_def length_make_partition)
  with nonempty have r0: "part_at bounds 0 = Inr (bounds ! 0, bounds ! Suc 0)"
    by (simp add: part_at_def)
  have unfold: "thingify (uniform reg l r seed) p =
      collect (locate_sample (not_a_number p) bounds cables) (sort (S l r)) []" for l r
    using thingify_uniform_collect [OF region, of l r seed] r0
    unfolding bounds_def [symmetric] S_def [symmetric] by simp
  have "0 \<le> x" if "x \<in> set (map (integrate_length_cable (embedding p)) cables)" for x
    using that positive by (auto intro: less_imp_le)
  then have len_nonneg: "0 \<le> last bounds"
    unfolding bounds_def last_make_partition by (rule sum_list_nonneg)
  have sample: "0 \<le> e \<and> e \<le> last bounds" if "e \<in> set (S l r)" for e l r
  proof -
    from that obtain i where "e = cbrng p seed i * last bounds"
      by (auto simp: S_def util_uniform_def)
    moreover have "cbrng p seed i * last bounds \<le> 1 * last bounds"
      using draws len_nonneg by (intro mult_right_mono) simp_all
    ultimately show ?thesis
      using draws len_nonneg by simp
  qed
  have ok: "\<exists>loc. locate_sample (not_a_number p) bounds cables e = Inr loc" if "e \<in> set (S l r)" for e l r
    using locate_sample_ok [OF nonempty bounds_def, of e "not_a_number p"] sample [OF that] by simp
  have resolved: "thingify (uniform reg l r seed) p = Inr (map g (sort (S l r)))" for l r
  proof -
    have "\<forall>e \<in> set (sort (S l r)). \<exists>loc. locate_sample (not_a_number p) bounds cables e = Inr loc"
      using ok [of _ l r] by simp
    from collect_ok [OF this, of "[]"] show ?thesis
      unfolding unfold g_def by simp
  qed
  have split: "S left right = S left m @ S (m + 1) right"
    using util_uniform_split [OF range] by (simp add: S_def)
  have mono: "loc_key (g e) \<le> loc_key (g e')"
    if "e \<in> set (sort (S left right))" "e' \<in> set (sort (S left right))" "e \<le> e'" for e e'
  proof -
    from ok [of e left right] ok [of e' left right] that
    obtain l l' where l: "locate_sample (not_a_number p) bounds cables e = Inr l"
      and l': "locate_sample (not_a_number p) bounds cables e' = Inr l'"
      by auto
    from locate_sample_mono [OF ext bounds_def positive _ that(3) l l'] sample [of e left right] that(1)
    show ?thesis
      by (simp add: g_def l l')
  qed
  have "sorted_wrt (\<lambda>e e'. loc_key (g e) \<le> loc_key (g e')) (sort (S left right))"
    by (rule sorted_wrt_mono_rel [where P = "(\<le>)"]) (use mono in auto)
  then have sorted: "sorted (map loc_key (map g (sort (S left right))))"
    by (simp add: sorted_wrt_map)
  have "mset (map g (sort (S left right))) = mset (map g (sort (S left m)) @ map g (sort (S (m + 1) right)))"
    by (simp add: split)
  from sort_key_unique [OF inj_loc_key this sorted]
  have "thingify (uniform reg left right seed) p
      = Inr (sort_key loc_key (map g (sort (S left m)) @ map g (sort (S (m + 1) right))))"
    by (simp add: resolved)
  with resolved [of left m] resolved [of "m + 1" right] show ?thesis
    by blast
qed

text \<open>
  The result depends on the provider only through the resolved region, the lengths of
  its cables, the draws of the indices \<open>left..right\<close> and the stand-in.
\<close>

lemma uniform_depends:
  assumes "thingify_region p reg = Inr cables" and "thingify_region p' reg = Inr cables"
    and "\<forall>c \<in> set cables. integrate_length_cable (embedding p') c = integrate_length_cable (embedding p) c"
    and "\<forall>i. left \<le> i \<and> i \<le> right \<longrightarrow> cbrng p' seed i = cbrng p seed i"
    and "not_a_number p' = not_a_number p"
  shows "thingify (uniform reg left right seed) p' = thingify (uniform reg left right seed) p"
proof -
  have lengths: "map (integrate_length_cable (embedding p')) cables
      = map (integrate_length_cable (embedding p)) cables"
    using assms(3) by (intro map_cong) simp_all
  have draws: "util_uniform (cbrng p') seed left right = util_uniform (cbrng p) seed left right"
    unfolding util_uniform_def using assms(4) by (intro map_cong) auto
  show ?thesis
    unfolding thingify_uniform_collect [OF assms(1)] thingify_uniform_collect [OF assms(2)]
      lengths draws assms(5) by (rule refl)
qed

lemma uniform_split_example:
  "thingify (uniform whole_cell 0 1 5) two_branch_provider
     = Inr [\<lparr>branch = 0, pos = 5/6\<rparr>, \<lparr>branch = 1, pos = 1\<rparr>] \<and>
   thingify (uniform whole_cell (1 + 1) 2 5) two_branch_provider = Inr [\<lparr>branch = 0, pos = 5/9\<rparr>] \<and>
   thingify (uniform whole_cell 0 2 5) two_branch_provider
     = Inr [\<lparr>branch = 0, pos = 5/9\<rparr>, \<lparr>branch = 0, pos = 5/6\<rparr>, \<lparr>branch = 1, pos = 1\<rparr>]"
  by code_simp

text \<open>
  The two regions that the walk is not written for. On a region that resolves to no
  cable at all, the first statement after the draws already reads part 0 of a partition
  that has no part, and the loop would read cable 0 of an empty cable list: whatever the
  range, there is no result. On a region whose cables all have length zero, every
  sample is 0 and lands on the first cable, where the quotient is 0/0: the call returns
  normally, and every position it returns is a NaN.
\<close>

lemma uniform_empty_region_general:
  "thingify_region p reg = Inr [] \<Longrightarrow> thingify (uniform reg left right seed) p = Inl Out_of_range"
  by (simp add: uniform_def thingify_uniform_def make_partition_def part_at_def)

lemma uniform_point_region:
  "thingify (uniform point_region 0 1 5) two_branch_provider
     = Inr [\<lparr>branch = 0, pos = not_a_number two_branch_provider\<rparr>,
            \<lparr>branch = 0, pos = not_a_number two_branch_provider\<rparr>]"
  by code_simp

text \<open>
  C2. The claim: for every region, seed and \<open>left \<le> m < right\<close>, \<open>uniform\<close> gives the
  same list on the same arguments, and the lists of \<open>left..m\<close> and of \<open>m+1..right\<close>,
  concatenated and sorted, are the list of \<open>left..right\<close>. The code does not do this
  for every region: on the empty region, for the range \<open>0..1\<close> as for its two halves
  \<open>0..0\<close> and \<open>1..1\<close>, each call reads past the end of the partition of the cable
  lengths, so there is no list to be identical or to be split.
\<close>

theorem uniform_empty_region:
  "thingify_region two_branch_provider [] = Inr [] \<and>
   thingify (uniform [] 0 0 5) two_branch_provider = Inl Out_of_range \<and>
   thingify (uniform [] (0 + 1) 1 5) two_branch_provider = Inl Out_of_range \<and>
   thingify (uniform [] 0 1 5) two_branch_provider = Inl Out_of_range"
  by (simp add: two_branch_provider_def uniform_def thingify_uniform_def make_partition_def
      part_at_def)

end
